theory Spec2Isabelle
  imports Complex_Main "HOL-Library.Word" "HOL-Library.Multiset"
begin

section \<open>Hash table with separate chaining (hash/hashtable.h)\<close>

text \<open>
  Modelling decisions.

  \<^item> A \<^verbatim>\<open>void *\<close> value is an address, a natural number; \<^verbatim>\<open>NULL\<close> is address 0.
  \<^item> A key is modelled by its content (type \<open>'k\<close>): the table stores the result of
    \<^verbatim>\<open>key_copy\<close>, and \<^verbatim>\<open>key_free\<close> only releases memory.
  \<^item> A bucket chain (\<^verbatim>\<open>HashEntry\<close> linked through \<^verbatim>\<open>next\<close>) is the list of its
    (key, value) pairs from the head on; the bucket array is the list of the chains and
    has \<^verbatim>\<open>capacity\<close> slots.
  \<^item> \<^verbatim>\<open>size_t\<close> counters are natural numbers: a bucket array whose byte size does not fit
    in \<^verbatim>\<open>size_t\<close> cannot be allocated, so the counters never wrap upwards; the one
    decrement, \<^verbatim>\<open>table->size--\<close> in \<^verbatim>\<open>hashtable_remove\<close>, runs after an entry was
    found. The field \<^verbatim>\<open>size\<close> is called \<open>size_ht\<close> here.
  \<^item> The \<^verbatim>\<open>double\<close> comparison of the load factor is modelled on the rationals: 0.75
    is a binary fraction, and its products with sizes below \<open>2 ^ 51\<close> are exact.
  \<^item> \<^verbatim>\<open>calloc\<close> failure in \<^verbatim>\<open>hashtable_init\<close> and \<^verbatim>\<open>hashtable_resize\<close> and
    \<^verbatim>\<open>malloc\<close> failure in a key copy end the process with \<^verbatim>\<open>exit\<close>, so no state is
    left to describe; the model describes the runs in which they succeed. The
    \<^verbatim>\<open>malloc\<close> of a \<^verbatim>\<open>HashEntry\<close> is different: on failure
    \<^verbatim>\<open>hashtable_create_entry\<close> returns \<^verbatim>\<open>NULL\<close> and \<^verbatim>\<open>hashtable_put\<close> returns
    false. That outcome is the flag \<open>malloc_ok\<close> of the model.
  \<^item> A bucket index outside the array is undefined behaviour in C. The policy contract
    (\<open>hash key capacity < capacity\<close>) excludes it; it is part of \<open>valid_policy\<close>.
\<close>

type_synonym ptr = nat

abbreviation (input) NULL :: ptr where
  "NULL \<equiv> 0"

definition HASHTABLE_DEFAULT_SIZE :: nat where
  "HASHTABLE_DEFAULT_SIZE = 16"

definition HASHTABLE_LOAD_FACTOR :: rat where
  "HASHTABLE_LOAD_FACTOR = 3 / 4"

definition HASHTABLE_MIN_SIZE :: nat where
  "HASHTABLE_MIN_SIZE = 8"

definition HASHTABLE_GROWTH_FACTOR :: nat where
  "HASHTABLE_GROWTH_FACTOR = 2"

type_synonym 'k HashEntry = "'k \<times> ptr"

record 'k HashFunction =
  hash :: "'k \<Rightarrow> nat \<Rightarrow> nat"
  key_equals :: "'k \<Rightarrow> 'k \<Rightarrow> bool"
  key_copy :: "'k \<Rightarrow> 'k"

record 'k HashTable =
  buckets :: "'k HashEntry list list"
  size_ht :: nat
  capacity :: nat
  load_factor_threshold :: rat
  hash_func :: "'k HashFunction"

subsection \<open>The built-in policies\<close>

text \<open>
  \<^verbatim>\<open>hash_string_djb2\<close>: \<^verbatim>\<open>size_t hash = 5381\<close>, then \<^verbatim>\<open>hash = ((hash << 5) + hash) + c\<close>
  for every byte \<^verbatim>\<open>c\<close> (an \<^verbatim>\<open>int\<close> read from a \<^verbatim>\<open>char\<close>, sign-extended where
  \<^verbatim>\<open>char\<close> is signed), in 64-bit wrap-around arithmetic, and finally
  \<^verbatim>\<open>hash % capacity\<close>. A key is the bytes of the C string before its terminator.
\<close>

definition djb2_step :: "64 word \<Rightarrow> char \<Rightarrow> 64 word" where
  "djb2_step h c = (push_bit 5 h + h) + scast (of_char c :: 8 word)"

definition hash_string_djb2 :: "string \<Rightarrow> nat \<Rightarrow> nat" where
  "hash_string_djb2 key cap = unat (foldl djb2_step 5381 key) mod cap"

definition hash_string_equals :: "string \<Rightarrow> string \<Rightarrow> bool" where
  "hash_string_equals key1 key2 = (key1 = key2)"

definition hash_string_copy :: "string \<Rightarrow> string" where
  "hash_string_copy key = key"

text \<open>
  \<^verbatim>\<open>hash_int\<close>: \<^verbatim>\<open>((size_t)val * A) % capacity\<close> with \<^verbatim>\<open>A = 2654435761U\<close>; the cast of
  the \<^verbatim>\<open>int\<close> sign-extends it to 64 bits.
\<close>

definition hash_int :: "32 word \<Rightarrow> nat \<Rightarrow> nat" where
  "hash_int key cap = unat ((scast key :: 64 word) * 2654435761) mod cap"

definition hash_int_equals :: "32 word \<Rightarrow> 32 word \<Rightarrow> bool" where
  "hash_int_equals key1 key2 = (key1 = key2)"

definition hash_int_copy :: "32 word \<Rightarrow> 32 word" where
  "hash_int_copy key = key"

definition STRING_HASH_FUNC :: "string HashFunction" where
  "STRING_HASH_FUNC =
     \<lparr>hash = hash_string_djb2, key_equals = hash_string_equals, key_copy = hash_string_copy\<rparr>"

definition INT_HASH_FUNC :: "32 word HashFunction" where
  "INT_HASH_FUNC = \<lparr>hash = hash_int, key_equals = hash_int_equals, key_copy = hash_int_copy\<rparr>"

subsection \<open>Entries and chains\<close>

definition hashtable_create_entry ::
  "bool \<Rightarrow> 'k \<Rightarrow> ptr \<Rightarrow> 'k HashFunction \<Rightarrow> 'k HashEntry option" where
  "hashtable_create_entry malloc_ok key val hf =
     (if \<not> malloc_ok then None else Some (key_copy hf key, val))"

text \<open>
  The three chain walks of \<^verbatim>\<open>hashtable_put\<close>, \<^verbatim>\<open>hashtable_get\<close> and
  \<^verbatim>\<open>hashtable_remove\<close>. Each stops at the first entry whose stored key satisfies
  \<^verbatim>\<open>key_equals(current->key, key)\<close>; \<open>None\<close> means that the walk reached the end.
\<close>

fun chain_update :: "('k \<Rightarrow> 'k \<Rightarrow> bool) \<Rightarrow> 'k \<Rightarrow> ptr \<Rightarrow> 'k HashEntry list \<Rightarrow> 'k HashEntry list option" where
  "chain_update eq key val [] = None"
| "chain_update eq key val (current # rest) =
     (if eq (fst current) key then Some ((fst current, val) # rest)
      else map_option ((#) current) (chain_update eq key val rest))"

fun chain_find :: "('k \<Rightarrow> 'k \<Rightarrow> bool) \<Rightarrow> 'k \<Rightarrow> 'k HashEntry list \<Rightarrow> ptr option" where
  "chain_find eq key [] = None"
| "chain_find eq key (current # rest) =
     (if eq (fst current) key then Some (snd current) else chain_find eq key rest)"

fun chain_remove :: "('k \<Rightarrow> 'k \<Rightarrow> bool) \<Rightarrow> 'k \<Rightarrow> 'k HashEntry list \<Rightarrow> 'k HashEntry list option" where
  "chain_remove eq key [] = None"
| "chain_remove eq key (current # rest) =
     (if eq (fst current) key then Some rest
      else map_option ((#) current) (chain_remove eq key rest))"

subsection \<open>Core operations\<close>

definition hashtable_init :: "nat \<Rightarrow> 'k HashFunction \<Rightarrow> 'k HashTable" where
  "hashtable_init initial_capacity hf =
     (let cap = (if initial_capacity < HASHTABLE_MIN_SIZE then HASHTABLE_MIN_SIZE
                 else initial_capacity)
      in \<lparr>buckets = replicate cap [], size_ht = 0, capacity = cap,
          load_factor_threshold = HASHTABLE_LOAD_FACTOR, hash_func = hf\<rparr>)"

definition hashtable_init_string :: "string HashTable" where
  "hashtable_init_string = hashtable_init HASHTABLE_DEFAULT_SIZE STRING_HASH_FUNC"

definition hashtable_init_int :: "32 word HashTable" where
  "hashtable_init_int = hashtable_init HASHTABLE_DEFAULT_SIZE INT_HASH_FUNC"

text \<open>
  One step of the rehash loop: the entry is linked in front of the chain of its new
  bucket and the counter goes up by one.
\<close>

definition rehash_entry ::
  "'k HashFunction \<Rightarrow> nat \<Rightarrow> 'k HashEntry list list \<times> nat \<Rightarrow> 'k HashEntry \<Rightarrow> 'k HashEntry list list \<times> nat" where
  "rehash_entry hf new_capacity st entry =
     (let new_index = hash hf (fst entry) new_capacity
      in ((fst st)[new_index := entry # (fst st ! new_index)], snd st + 1))"

text \<open>
  \<^verbatim>\<open>hashtable_resize\<close> visits the old buckets from index 0 upwards and every chain from
  its head on, which is the order of \<open>concat\<close>.
\<close>

definition hashtable_resize :: "'k HashTable \<Rightarrow> nat \<Rightarrow> 'k HashTable" where
  "hashtable_resize table new_capacity =
     (let st = foldl (rehash_entry (hash_func table) new_capacity)
                 (replicate new_capacity [], 0) (concat (buckets table))
      in table\<lparr>buckets := fst st, size_ht := snd st, capacity := new_capacity\<rparr>)"

definition hashtable_put :: "bool \<Rightarrow> 'k HashTable \<Rightarrow> 'k \<Rightarrow> ptr \<Rightarrow> bool \<times> 'k HashTable" where
  "hashtable_put malloc_ok table0 key val =
     (let table = (if of_nat (size_ht table0) \<ge> load_factor_threshold table0 * of_nat (capacity table0)
                   then hashtable_resize table0 (capacity table0 * HASHTABLE_GROWTH_FACTOR)
                   else table0);
          index = hash (hash_func table) key (capacity table)
      in case chain_update (key_equals (hash_func table)) key val (buckets table ! index) of
           Some chain \<Rightarrow> (True, table\<lparr>buckets := (buckets table)[index := chain]\<rparr>)
         | None \<Rightarrow>
             (case hashtable_create_entry malloc_ok key val (hash_func table) of
                None \<Rightarrow> (False, table)
              | Some new_entry \<Rightarrow>
                  (True, table\<lparr>buckets := (buckets table)[index := new_entry # (buckets table ! index)],
                               size_ht := size_ht table + 1\<rparr>)))"

definition hashtable_get :: "'k HashTable \<Rightarrow> 'k \<Rightarrow> ptr" where
  "hashtable_get table key =
     (let index = hash (hash_func table) key (capacity table)
      in case chain_find (key_equals (hash_func table)) key (buckets table ! index) of
           Some v \<Rightarrow> v
         | None \<Rightarrow> NULL)"

definition hashtable_remove :: "'k HashTable \<Rightarrow> 'k \<Rightarrow> bool \<times> 'k HashTable" where
  "hashtable_remove table key =
     (let index = hash (hash_func table) key (capacity table)
      in case chain_remove (key_equals (hash_func table)) key (buckets table ! index) of
           Some chain \<Rightarrow>
             (True, table\<lparr>buckets := (buckets table)[index := chain], size_ht := size_ht table - 1\<rparr>)
         | None \<Rightarrow> (False, table))"

definition hashtable_contains :: "'k HashTable \<Rightarrow> 'k \<Rightarrow> bool" where
  "hashtable_contains table key = (hashtable_get table key \<noteq> NULL)"

definition hashtable_size :: "'k HashTable \<Rightarrow> nat" where
  "hashtable_size table = size_ht table"

section \<open>Hash set (data_structures/hash/hashset.h)\<close>

text \<open>A \<^verbatim>\<open>HashSet\<close> is a \<^verbatim>\<open>HashTable\<close> whose values are all the dummy address 1.\<close>

definition HASHSET_DUMMY_VALUE :: ptr where
  "HASHSET_DUMMY_VALUE = 1"

definition hashset_init :: "nat \<Rightarrow> 'k HashFunction \<Rightarrow> 'k HashTable" where
  "hashset_init initial_capacity hf = hashtable_init initial_capacity hf"

definition hashset_add :: "bool \<Rightarrow> 'k HashTable \<Rightarrow> 'k \<Rightarrow> bool \<times> 'k HashTable" where
  "hashset_add malloc_ok set0 key =
     (let existed = hashtable_contains set0 key;
          set1 = snd (hashtable_put malloc_ok set0 key HASHSET_DUMMY_VALUE)
      in (\<not> existed, set1))"

definition hashset_remove :: "'k HashTable \<Rightarrow> 'k \<Rightarrow> bool \<times> 'k HashTable" where
  "hashset_remove set0 key = hashtable_remove set0 key"

definition hashset_contains :: "'k HashTable \<Rightarrow> 'k \<Rightarrow> bool" where
  "hashset_contains set0 key = hashtable_contains set0 key"

definition hashset_size :: "'k HashTable \<Rightarrow> nat" where
  "hashset_size set0 = hashtable_size set0"

section \<open>Binary heap (data_structures/heap/binary_heap.h)\<close>

text \<open>
  Modelling decisions.

  \<^item> The \<^verbatim>\<open>DynArray\<close> behind a heap is the list of its \<^verbatim>\<open>size\<close> live slots. Its
    \<^verbatim>\<open>capacity\<close> only decides when \<^verbatim>\<open>realloc\<close> runs; a failed \<^verbatim>\<open>realloc\<close> ends the
    process with \<^verbatim>\<open>exit\<close>, and the model describes the runs in which it succeeds.
  \<^item> An element is modelled by what the comparator reads through the pointer (type
    \<open>'a\<close>), and the comparator is a function into \<open>int\<close>, the \<^verbatim>\<open>int\<close> it returns.
  \<^item> \<^verbatim>\<open>dynarray_get\<close> and \<^verbatim>\<open>dynarray_set\<close> check their index against \<^verbatim>\<open>size\<close>. The
    heap calls them under the guards \<^verbatim>\<open>index > 0\<close>, \<^verbatim>\<open>left < size\<close> and
    \<^verbatim>\<open>right < size\<close> only, so the reads are list lookups in range.
  \<^item> \<^verbatim>\<open>HEAP_PARENT\<close> is used at positive indices only, where the \<^verbatim>\<open>size_t\<close>
    subtraction does not wrap.
\<close>

definition HEAP_PARENT :: "nat \<Rightarrow> nat" where
  "HEAP_PARENT i = (i - 1) div 2"

definition HEAP_LEFT_CHILD :: "nat \<Rightarrow> nat" where
  "HEAP_LEFT_CHILD i = 2 * i + 1"

definition HEAP_RIGHT_CHILD :: "nat \<Rightarrow> nat" where
  "HEAP_RIGHT_CHILD i = 2 * i + 2"

text \<open>
  \<^verbatim>\<open>heap_int_compare_min\<close> returns \<^verbatim>\<open>ia - ib\<close> and \<^verbatim>\<open>heap_int_compare_max\<close> returns
  \<^verbatim>\<open>ib - ia\<close>, both computed in 32-bit \<^verbatim>\<open>int\<close>: the difference wraps around.
\<close>

definition heap_int_compare_min :: "32 word \<Rightarrow> 32 word \<Rightarrow> int" where
  "heap_int_compare_min ia ib = sint (ia - ib)"

definition heap_int_compare_max :: "32 word \<Rightarrow> 32 word \<Rightarrow> int" where
  "heap_int_compare_max ia ib = sint (ib - ia)"

text \<open>
  \<^verbatim>\<open>heap_pointer_compare\<close> orders elements by address:
  \<^verbatim>\<open>(pa > pb) - (pa < pb)\<close> on \<^verbatim>\<open>uintptr_t\<close>.
\<close>

definition heap_pointer_compare :: "64 word \<Rightarrow> 64 word \<Rightarrow> int" where
  "heap_pointer_compare pa pb = (if pa > pb then 1 else 0) - (if pa < pb then 1 else 0)"



subsection \<open>The growable array (dynarray/dynarray.h)\<close>

definition dynarray_push :: "'a list \<Rightarrow> 'a \<Rightarrow> 'a list" where
  "dynarray_push arr element = arr @ [element]"

definition dynarray_pop :: "'a list \<Rightarrow> 'a option \<times> 'a list" where
  "dynarray_pop arr = (if length arr = 0 then (None, arr) else (Some (last arr), butlast arr))"

definition dynarray_set :: "'a list \<Rightarrow> nat \<Rightarrow> 'a \<Rightarrow> 'a list" where
  "dynarray_set arr index element = (if index \<ge> length arr then arr else arr[index := element])"

definition dynarray_size :: "'a list \<Rightarrow> nat" where
  "dynarray_size arr = length arr"


subsection \<open>The heap\<close>

record 'a BinaryHeap =
  data :: "'a list"
  compare :: "'a \<Rightarrow> 'a \<Rightarrow> int"

definition binary_heap_swap :: "'a BinaryHeap \<Rightarrow> nat \<Rightarrow> nat \<Rightarrow> 'a BinaryHeap" where
  "binary_heap_swap heap i j =
     (let temp = data heap ! i
      in heap\<lparr>data := dynarray_set (dynarray_set (data heap) i (data heap ! j)) j temp\<rparr>)"

function binary_heap_heapify_up :: "'a BinaryHeap \<Rightarrow> nat \<Rightarrow> 'a BinaryHeap" where
  "binary_heap_heapify_up heap index =
     (if index > 0 then
        (let parent_idx = HEAP_PARENT index;
             current = data heap ! index;
             parent = data heap ! parent_idx
         in if compare heap current parent \<ge> 0 then heap
            else binary_heap_heapify_up (binary_heap_swap heap index parent_idx) parent_idx)
      else heap)"
  by pat_completeness auto
termination
  by (relation "measure snd") (auto simp: HEAP_PARENT_def)

declare binary_heap_heapify_up.simps [simp del]

text \<open>
  The choice of \<^verbatim>\<open>target\<close> in one round of \<^verbatim>\<open>binary_heap_heapify_down\<close>: the left
  child if it compares below the current node, then the right child if it compares
  below whichever of the two was chosen.
\<close>

definition heapify_down_target :: "'a BinaryHeap \<Rightarrow> nat \<Rightarrow> nat" where
  "heapify_down_target heap index =
     (let size = dynarray_size (data heap);
          left = HEAP_LEFT_CHILD index;
          right = HEAP_RIGHT_CHILD index;
          target = (if left < size \<and> compare heap (data heap ! left) (data heap ! index) < 0
                    then left else index)
      in if right < size \<and> compare heap (data heap ! right) (data heap ! target) < 0
         then right else target)"

function binary_heap_heapify_down :: "'a BinaryHeap \<Rightarrow> nat \<Rightarrow> 'a BinaryHeap" where
  "binary_heap_heapify_down heap index =
     (let target = heapify_down_target heap index
      in if target = index then heap
         else binary_heap_heapify_down (binary_heap_swap heap index target) target)"
  by pat_completeness auto
termination
  by (relation "measure (\<lambda>(heap, index). length (data heap) - index)")
     (auto simp: heapify_down_target_def binary_heap_swap_def dynarray_set_def dynarray_size_def
        HEAP_LEFT_CHILD_def HEAP_RIGHT_CHILD_def Let_def split: if_splits)

declare binary_heap_heapify_down.simps [simp del]

definition binary_heap_init :: "('a \<Rightarrow> 'a \<Rightarrow> int) \<Rightarrow> nat \<Rightarrow> 'a BinaryHeap" where
  "binary_heap_init cmp initial_capacity = \<lparr>data = [], compare = cmp\<rparr>"

definition binary_heap_push :: "'a BinaryHeap \<Rightarrow> 'a \<Rightarrow> 'a BinaryHeap" where
  "binary_heap_push heap element =
     (let heap1 = heap\<lparr>data := dynarray_push (data heap) element\<rparr>;
          last_index = dynarray_size (data heap1) - 1
      in binary_heap_heapify_up heap1 last_index)"

text \<open>
  \<^verbatim>\<open>binary_heap_pop\<close> returns the root, or \<^verbatim>\<open>NULL\<close> (here \<open>None\<close>) on an empty heap.
  With two or more elements \<^verbatim>\<open>dynarray_pop\<close> cannot return \<^verbatim>\<open>NULL\<close>; the model keeps
  that branch and leaves the array as \<^verbatim>\<open>dynarray_pop\<close> left it.
\<close>

definition binary_heap_pop :: "'a BinaryHeap \<Rightarrow> 'a option \<times> 'a BinaryHeap" where
  "binary_heap_pop heap =
     (let size = dynarray_size (data heap)
      in if size = 0 then (None, heap)
         else
           (let root = data heap ! 0
            in if size = 1 then (Some root, heap\<lparr>data := snd (dynarray_pop (data heap))\<rparr>)
               else
                 (case dynarray_pop (data heap) of
                    (None, arr) \<Rightarrow> (Some root, heap\<lparr>data := arr\<rparr>)
                  | (Some last_element, arr) \<Rightarrow>
                      (Some root,
                       binary_heap_heapify_down (heap\<lparr>data := dynarray_set arr 0 last_element\<rparr>) 0))))"

definition binary_heap_peek :: "'a BinaryHeap \<Rightarrow> 'a option" where
  "binary_heap_peek heap = (if dynarray_size (data heap) > 0 then Some (data heap ! 0) else None)"

definition binary_heap_replace :: "'a BinaryHeap \<Rightarrow> 'a \<Rightarrow> 'a option \<times> 'a BinaryHeap" where
  "binary_heap_replace heap element =
     (let size = dynarray_size (data heap)
      in if size = 0 then (None, binary_heap_push heap element)
         else
           (let old_root = data heap ! 0
            in (Some old_root,
                binary_heap_heapify_down (heap\<lparr>data := dynarray_set (data heap) 0 element\<rparr>) 0)))"


definition binary_heap_size :: "'a BinaryHeap \<Rightarrow> nat" where
  "binary_heap_size heap = dynarray_size (data heap)"

text \<open>
  \<^verbatim>\<open>binary_heap_is_valid\<close> returns false at the first parent that compares above one
  of its children, and true when the loop over \<^verbatim>\<open>i < size / 2\<close> ends.
\<close>

definition binary_heap_is_valid :: "'a BinaryHeap \<Rightarrow> bool" where
  "binary_heap_is_valid heap =
     (let size = dynarray_size (data heap)
      in list_all (\<lambda>i.
           (let left = HEAP_LEFT_CHILD i;
                right = HEAP_RIGHT_CHILD i;
                parent_data = data heap ! i
            in \<not> (left < size \<and> compare heap parent_data (data heap ! left) > 0) \<and>
               \<not> (right < size \<and> compare heap parent_data (data heap ! right) > 0)))
         [0..<size div 2])"

subsection \<open>Test drivers\<close>

text \<open>
  Pushing a list of elements one by one, and draining: \<open>drain n heap\<close> calls
  \<^verbatim>\<open>binary_heap_pop\<close> up to \<open>n\<close> times and collects the elements returned, stopping
  at the first \<^verbatim>\<open>NULL\<close>.
\<close>

definition push_all :: "'a BinaryHeap \<Rightarrow> 'a list \<Rightarrow> 'a BinaryHeap" where
  "push_all heap elements = foldl binary_heap_push heap elements"

fun drain :: "nat \<Rightarrow> 'a BinaryHeap \<Rightarrow> 'a list" where
  "drain 0 heap = []"
| "drain (Suc n) heap =
     (case binary_heap_pop heap of
        (None, heap') \<Rightarrow> []
      | (Some x, heap') \<Rightarrow> x # drain n heap')"

definition drain_all :: "'a BinaryHeap \<Rightarrow> 'a list" where
  "drain_all heap = drain (binary_heap_size heap) heap"

section \<open>Notions used in the statements about the heap\<close>

text \<open>
  A comparator is a three-way total preorder when the sign of \<open>cmp a b\<close> is the
  opposite of the sign of \<open>cmp b a\<close> and "\<open>cmp a b \<le> 0\<close>" is transitive.
  \<open>heap_order_from lo\<close> is the heap order restricted to the parents at index \<open>lo\<close>
  or above; \<open>down_pre\<close> and \<open>up_pre\<close> are the loop invariants of the two sift
  loops: the heap order holds except around index \<open>i\<close>, and the parent of \<open>i\<close>
  already precedes the children of \<open>i\<close>.
\<close>

definition three_way :: "('a \<Rightarrow> 'a \<Rightarrow> int) \<Rightarrow> bool" where
  "three_way cmp \<longleftrightarrow>
     (\<forall>a b. (cmp a b < 0) = (cmp b a > 0)) \<and>
     (\<forall>a b c. cmp a b \<le> 0 \<longrightarrow> cmp b c \<le> 0 \<longrightarrow> cmp a c \<le> 0)"

definition heap_order_from :: "nat \<Rightarrow> ('a \<Rightarrow> 'a \<Rightarrow> int) \<Rightarrow> 'a list \<Rightarrow> bool" where
  "heap_order_from lo cmp xs \<longleftrightarrow>
     (\<forall>c < length xs. 0 < c \<longrightarrow> lo \<le> HEAP_PARENT c \<longrightarrow> cmp (xs ! HEAP_PARENT c) (xs ! c) \<le> 0)"

definition down_pre :: "nat \<Rightarrow> ('a \<Rightarrow> 'a \<Rightarrow> int) \<Rightarrow> 'a list \<Rightarrow> nat \<Rightarrow> bool" where
  "down_pre lo cmp xs i \<longleftrightarrow>
     (\<forall>c < length xs. 0 < c \<longrightarrow> lo \<le> HEAP_PARENT c \<longrightarrow> HEAP_PARENT c \<noteq> i \<longrightarrow>
        cmp (xs ! HEAP_PARENT c) (xs ! c) \<le> 0) \<and>
     (0 < i \<longrightarrow> lo \<le> HEAP_PARENT i \<longrightarrow>
        (\<forall>c < length xs. 0 < c \<longrightarrow> HEAP_PARENT c = i \<longrightarrow> cmp (xs ! HEAP_PARENT i) (xs ! c) \<le> 0))"

definition up_pre :: "('a \<Rightarrow> 'a \<Rightarrow> int) \<Rightarrow> 'a list \<Rightarrow> nat \<Rightarrow> bool" where
  "up_pre cmp xs i \<longleftrightarrow>
     (\<forall>c < length xs. 0 < c \<longrightarrow> c \<noteq> i \<longrightarrow> cmp (xs ! HEAP_PARENT c) (xs ! c) \<le> 0) \<and>
     (0 < i \<longrightarrow>
        (\<forall>c < length xs. 0 < c \<longrightarrow> HEAP_PARENT c = i \<longrightarrow> cmp (xs ! HEAP_PARENT i) (xs ! c) \<le> 0))"


text \<open>Operation sequences on a heap.\<close>

datatype 'a heap_op = Push 'a | Pop | Replace 'a

fun heap_step :: "'a BinaryHeap \<Rightarrow> 'a heap_op \<Rightarrow> 'a BinaryHeap" where
  "heap_step heap (Push x) = binary_heap_push heap x"
| "heap_step heap Pop = snd (binary_heap_pop heap)"
| "heap_step heap (Replace x) = snd (binary_heap_replace heap x)"

definition heap_wf :: "'a BinaryHeap \<Rightarrow> bool" where
  "heap_wf heap \<longleftrightarrow> heap_order_from 0 (compare heap) (data heap)"

section \<open>Notions used in the statements about the hash table\<close>

text \<open>
  The contract of a key policy: the hash lies below the capacity,
  \<^verbatim>\<open>key_equals\<close> is an equivalence relation, equal keys have equal hashes, and a copy
  of a key is equal to the key.
\<close>

definition valid_policy :: "'k HashFunction \<Rightarrow> bool" where
  "valid_policy hf \<longleftrightarrow>
     (\<forall>k c. 0 < c \<longrightarrow> hash hf k c < c) \<and>
     (\<forall>a. key_equals hf a a) \<and>
     (\<forall>a b. key_equals hf a b \<longrightarrow> key_equals hf b a) \<and>
     (\<forall>a b c. key_equals hf a b \<longrightarrow> key_equals hf b c \<longrightarrow> key_equals hf a c) \<and>
     (\<forall>a b c. key_equals hf a b \<longrightarrow> hash hf a c = hash hf b c) \<and>
     (\<forall>k. key_equals hf (key_copy hf k) k)"

text \<open>
  A well-formed table: the bucket array has \<open>capacity\<close> slots, \<open>size\<close> counts the
  entries, every entry lies in the bucket of its key, and no chain holds two equal keys.
\<close>

definition keys_differ :: "('k \<Rightarrow> 'k \<Rightarrow> bool) \<Rightarrow> 'k HashEntry list \<Rightarrow> bool" where
  "keys_differ eq chain = sorted_wrt (\<lambda>a b. \<not> eq (fst a) (fst b)) chain"

definition table_inv :: "'k HashTable \<Rightarrow> bool" where
  "table_inv table \<longleftrightarrow>
     valid_policy (hash_func table) \<and>
     0 < capacity table \<and>
     length (buckets table) = capacity table \<and>
     size_ht table = length (concat (buckets table)) \<and>
     (\<forall>i < capacity table.
        (\<forall>e \<in> set (buckets table ! i). hash (hash_func table) (fst e) (capacity table) = i) \<and>
        keys_differ (key_equals (hash_func table)) (buckets table ! i))"

text \<open>
  The chain walk shared by \<^verbatim>\<open>hashtable_get\<close>, \<^verbatim>\<open>hashtable_put\<close> and
  \<^verbatim>\<open>hashtable_remove\<close>; a key is present when the walk finds an entry.
\<close>

definition bucket_lookup :: "'k HashTable \<Rightarrow> 'k \<Rightarrow> ptr option" where
  "bucket_lookup table key =
     chain_find (key_equals (hash_func table)) key
       (buckets table ! hash (hash_func table) key (capacity table))"

definition hashtable_has_key :: "'k HashTable \<Rightarrow> 'k \<Rightarrow> bool" where
  "hashtable_has_key table key = (bucket_lookup table key \<noteq> None)"

text \<open>
  The test at the head of \<^verbatim>\<open>hashtable_put\<close>,
  \<^verbatim>\<open>(double)size >= load_factor_threshold * capacity\<close>, and the table after the
  resize that it guards.
\<close>

definition grows :: "'k HashTable \<Rightarrow> bool" where
  "grows table \<longleftrightarrow>
     of_nat (size_ht table) \<ge> load_factor_threshold table * of_nat (capacity table)"

definition put_resized :: "'k HashTable \<Rightarrow> 'k HashTable" where
  "put_resized table =
     (if grows table then hashtable_resize table (capacity table * HASHTABLE_GROWTH_FACTOR) else table)"

text \<open>
  Operation sequences. \<open>Put malloc_ok key val\<close> is a call of \<^verbatim>\<open>hashtable_put\<close>
  in which the allocation of a new entry, if one is needed, succeeds or not.
\<close>

datatype 'k table_op = Put bool 'k ptr | Remove 'k

fun table_step :: "'k HashTable \<Rightarrow> 'k table_op \<Rightarrow> 'k HashTable" where
  "table_step table (Put malloc_ok key val) = snd (hashtable_put malloc_ok table key val)"
| "table_step table (Remove key) = snd (hashtable_remove table key)"

fun op_key :: "'k table_op \<Rightarrow> 'k" where
  "op_key (Put malloc_ok key val) = key"
| "op_key (Remove key) = key"

fun op_binding :: "'k table_op \<Rightarrow> ptr option" where
  "op_binding (Put malloc_ok key val) = Some val"
| "op_binding (Remove key) = None"

fun op_allocated :: "'k table_op \<Rightarrow> bool" where
  "op_allocated (Put malloc_ok key val) = malloc_ok"
| "op_allocated (Remove key) = True"

text \<open>
  What a sequence of operations should leave in the table, read off the sequence alone:
  the value of the most recent operation on an equal key (none after a remove), and
  the keys put and not removed since, one per class of equal keys.
\<close>

definition latest_binding :: "('k \<Rightarrow> 'k \<Rightarrow> bool) \<Rightarrow> 'k table_op list \<Rightarrow> 'k \<Rightarrow> ptr option" where
  "latest_binding eq ops key =
     (case find (\<lambda>op. eq (op_key op) key) (rev ops) of
        Some op \<Rightarrow> op_binding op
      | None \<Rightarrow> None)"

definition latest_value :: "('k \<Rightarrow> 'k \<Rightarrow> bool) \<Rightarrow> 'k table_op list \<Rightarrow> 'k \<Rightarrow> ptr" where
  "latest_value eq ops key = (case latest_binding eq ops key of Some v \<Rightarrow> v | None \<Rightarrow> NULL)"

fun live_step :: "('k \<Rightarrow> 'k \<Rightarrow> bool) \<Rightarrow> 'k list \<Rightarrow> 'k table_op \<Rightarrow> 'k list" where
  "live_step eq ks (Put malloc_ok key val) = (if list_ex (\<lambda>k. eq k key) ks then ks else ks @ [key])"
| "live_step eq ks (Remove key) = filter (\<lambda>k. \<not> eq k key) ks"

definition live_keys :: "('k \<Rightarrow> 'k \<Rightarrow> bool) \<Rightarrow> 'k table_op list \<Rightarrow> 'k list" where
  "live_keys eq ops = foldl (live_step eq) [] ops"

text \<open>
  The load bound kept by every operation on a table made by \<^verbatim>\<open>hashtable_init\<close>, and
  the tables that the set operations build.
\<close>

definition load_inv :: "'k HashTable \<Rightarrow> bool" where
  "load_inv table \<longleftrightarrow>
     load_factor_threshold table = HASHTABLE_LOAD_FACTOR \<and>
     HASHTABLE_MIN_SIZE \<le> capacity table \<and>
     4 * size_ht table \<le> 3 * capacity table + 3 \<and>
     (4 dvd capacity table \<longrightarrow> 4 * size_ht table \<le> 3 * capacity table)"

definition hashset_inv :: "'k HashTable \<Rightarrow> bool" where
  "hashset_inv set0 \<longleftrightarrow>
     table_inv set0 \<and> (\<forall>e\<in>set (concat (buckets set0)). snd e = HASHSET_DUMMY_VALUE)"

section \<open>Hash table: chains, buckets and the resize\<close>

lemma chain_find_None: "chain_find eq k ch = None \<longleftrightarrow> (\<forall>e\<in>set ch. \<not> eq (fst e) k)"
  by (induction ch) auto

lemma chain_find_SomeD: "chain_find eq k ch = Some v \<Longrightarrow> \<exists>e\<in>set ch. eq (fst e) k \<and> snd e = v"
  by (induction ch) (auto split: if_splits)

lemma chain_find_SomeI:
  assumes sym: "\<And>a b. eq a b \<Longrightarrow> eq b a" and trans: "\<And>a b c. eq a b \<Longrightarrow> eq b c \<Longrightarrow> eq a c"
  shows "keys_differ eq ch \<Longrightarrow> e \<in> set ch \<Longrightarrow> eq (fst e) k \<Longrightarrow> chain_find eq k ch = Some (snd e)"
proof (induction ch)
  case Nil
  then show ?case by simp
next
  case (Cons c rest)
  show ?case
  proof (cases "e = c")
    case True
    then show ?thesis using Cons.prems by simp
  next
    case False
    then have er: "e \<in> set rest" using Cons.prems by simp
    then have "\<not> eq (fst c) (fst e)" using Cons.prems(1) by (auto simp: keys_differ_def)
    then have "\<not> eq (fst c) k" using sym trans Cons.prems(3) by blast
    then show ?thesis using Cons.IH er Cons.prems by (simp add: keys_differ_def)
  qed
qed

lemma chain_update_None: "chain_update eq k v ch = None \<longleftrightarrow> chain_find eq k ch = None"
  by (induction ch) auto

lemma chain_update_keys: "chain_update eq k v ch = Some ch' \<Longrightarrow> map fst ch' = map fst ch"
  by (induction ch arbitrary: ch') (auto split: if_splits)

lemma chain_update_find:
  assumes sym: "\<And>a b. eq a b \<Longrightarrow> eq b a" and trans: "\<And>a b c. eq a b \<Longrightarrow> eq b c \<Longrightarrow> eq a c"
  shows "chain_update eq k v ch = Some ch' \<Longrightarrow>
         chain_find eq k' ch' = (if eq k k' then Some v else chain_find eq k' ch)"
proof (induction ch arbitrary: ch')
  case Nil
  then show ?case by simp
next
  case (Cons c rest)
  show ?case
  proof (cases "eq (fst c) k")
    case True
    then have "eq (fst c) k' \<longleftrightarrow> eq k k'" using sym trans by blast
    then show ?thesis using Cons.prems True by auto
  next
    case False
    then obtain r' where r: "chain_update eq k v rest = Some r'" and c: "ch' = c # r'"
      using Cons.prems by auto
    have "eq (fst c) k' \<Longrightarrow> \<not> eq k k'" using False sym trans by blast
    then show ?thesis using Cons.IH [OF r] c by auto
  qed
qed

lemma chain_remove_None: "chain_remove eq k ch = None \<longleftrightarrow> chain_find eq k ch = None"
  by (induction ch) auto

lemma chain_remove_length: "chain_remove eq k ch = Some ch' \<Longrightarrow> length ch = Suc (length ch')"
  by (induction ch arbitrary: ch') (auto split: if_splits)

lemma chain_remove_subset: "chain_remove eq k ch = Some ch' \<Longrightarrow> set ch' \<subseteq> set ch"
  by (induction ch arbitrary: ch') (auto split: if_splits)

lemma chain_remove_differ:
  "chain_remove eq k ch = Some ch' \<Longrightarrow> keys_differ eq ch \<Longrightarrow> keys_differ eq ch'"
proof (induction ch arbitrary: ch')
  case Nil
  then show ?case by simp
next
  case (Cons c rest)
  show ?case
  proof (cases "eq (fst c) k")
    case True
    then show ?thesis using Cons.prems by (auto simp: keys_differ_def)
  next
    case False
    then obtain r' where r: "chain_remove eq k rest = Some r'" and c: "ch' = c # r'"
      using Cons.prems by auto
    then show ?thesis
      using Cons.IH [OF r] Cons.prems(2) chain_remove_subset [OF r]
      by (auto simp: keys_differ_def)
  qed
qed

lemma chain_remove_find:
  assumes sym: "\<And>a b. eq a b \<Longrightarrow> eq b a" and trans: "\<And>a b c. eq a b \<Longrightarrow> eq b c \<Longrightarrow> eq a c"
  shows "chain_remove eq k ch = Some ch' \<Longrightarrow> keys_differ eq ch \<Longrightarrow>
         chain_find eq k' ch' = (if eq k k' then None else chain_find eq k' ch)"
proof (induction ch arbitrary: ch')
  case Nil
  then show ?case by simp
next
  case (Cons c rest)
  show ?case
  proof (cases "eq (fst c) k")
    case True
    then have ch': "ch' = rest" using Cons.prems by simp
    have d: "\<forall>e\<in>set rest. \<not> eq (fst c) (fst e)" using Cons.prems(2) by (simp add: keys_differ_def)
    show ?thesis
    proof (cases "eq k k'")
      case kk: True
      have "\<forall>e\<in>set rest. \<not> eq (fst e) k'" using d True kk sym trans by blast
      then show ?thesis using kk ch' by (simp add: chain_find_None)
    next
      case False
      then have "\<not> eq (fst c) k'" using True sym trans by blast
      then show ?thesis using False ch' by simp
    qed
  next
    case False
    then obtain r' where r: "chain_remove eq k rest = Some r'" and c: "ch' = c # r'"
      using Cons.prems by auto
    have "eq (fst c) k' \<Longrightarrow> \<not> eq k k'" using False sym trans by blast
    then show ?thesis using Cons.IH [OF r] c Cons.prems(2) by (auto simp: keys_differ_def)
  qed
qed

lemma concat_update_mset:
  "i < length bs \<Longrightarrow> mset (concat (bs[i := ch])) + mset (bs ! i) = mset (concat bs) + mset ch"
proof (induction bs arbitrary: i)
  case Nil
  then show ?case by simp
next
  case (Cons b bs)
  show ?case
  proof (cases i)
    case 0
    then show ?thesis by simp
  next
    case (Suc j)
    then show ?thesis using Cons.IH [of j] Cons.prems by simp
  qed
qed

lemma concat_update_length:
  "i < length bs \<Longrightarrow> length (concat (bs[i := ch])) + length (bs ! i) = length (concat bs) + length ch"
  using concat_update_mset [of i bs ch]
  by (metis size_mset size_union)

lemma concat_differ:
  assumes "\<And>i. i < length bs \<Longrightarrow> keys_differ eq (bs ! i)"
    and "\<And>i j a b. i < j \<Longrightarrow> j < length bs \<Longrightarrow> a \<in> set (bs ! i) \<Longrightarrow> b \<in> set (bs ! j) \<Longrightarrow>
           \<not> eq (fst a) (fst b)"
  shows "keys_differ eq (concat bs)"
  using assms
proof (induction bs)
  case Nil
  then show ?case by (simp add: keys_differ_def)
next
  case (Cons b bs)
  have 1: "keys_differ eq b" using Cons.prems(1) [of 0] by simp
  have 2: "keys_differ eq (concat bs)"
  proof (rule Cons.IH)
    fix i assume "i < length bs"
    then show "keys_differ eq (bs ! i)" using Cons.prems(1) [of "Suc i"] by simp
  next
    fix i j a b' assume "i < j" "j < length bs" "a \<in> set (bs ! i)" "b' \<in> set (bs ! j)"
    then show "\<not> eq (fst a) (fst b')" using Cons.prems(2) [of "Suc i" "Suc j" a b'] by simp
  qed
  have 3: "\<forall>x\<in>set b. \<forall>y\<in>set (concat bs). \<not> eq (fst x) (fst y)"
  proof (intro ballI)
    fix x y assume x: "x \<in> set b" and "y \<in> set (concat bs)"
    then obtain ys where "ys \<in> set bs" "y \<in> set ys" by auto
    then obtain j where "j < length bs" "y \<in> set (bs ! j)"
      by (metis in_set_conv_nth)
    then show "\<not> eq (fst x) (fst y)" using Cons.prems(2) [of 0 "Suc j" x y] x by simp
  qed
  show ?case using 1 2 3 by (simp add: keys_differ_def sorted_wrt_append)
qed

lemma vp_range: "valid_policy hf \<Longrightarrow> 0 < c \<Longrightarrow> hash hf k c < c"
  unfolding valid_policy_def by blast

lemma vp_refl: "valid_policy hf \<Longrightarrow> key_equals hf a a"
  unfolding valid_policy_def by blast

lemma vp_sym: "valid_policy hf \<Longrightarrow> key_equals hf a b \<Longrightarrow> key_equals hf b a"
  unfolding valid_policy_def by blast

lemma vp_trans: "valid_policy hf \<Longrightarrow> key_equals hf a b \<Longrightarrow> key_equals hf b c \<Longrightarrow> key_equals hf a c"
  unfolding valid_policy_def by blast

lemma vp_hash: "valid_policy hf \<Longrightarrow> key_equals hf a b \<Longrightarrow> hash hf a c = hash hf b c"
  unfolding valid_policy_def by blast

lemma vp_copy: "valid_policy hf \<Longrightarrow> key_equals hf (key_copy hf k) k"
  unfolding valid_policy_def by blast

lemma table_inv_policy: "table_inv t \<Longrightarrow> valid_policy (hash_func t)"
  unfolding table_inv_def by blast

lemma table_inv_index: "table_inv t \<Longrightarrow> hash (hash_func t) k (capacity t) < length (buckets t)"
  by (simp add: table_inv_def vp_range)

lemma table_inv_bucket:
  "table_inv t \<Longrightarrow> i < capacity t \<Longrightarrow> e \<in> set (buckets t ! i) \<Longrightarrow>
   hash (hash_func t) (fst e) (capacity t) = i"
  by (simp add: table_inv_def)

lemma table_inv_differ:
  "table_inv t \<Longrightarrow> i < capacity t \<Longrightarrow> keys_differ (key_equals (hash_func t)) (buckets t ! i)"
  by (simp add: table_inv_def)

lemma table_entries_differ:
  assumes inv: "table_inv t"
  shows "keys_differ (key_equals (hash_func t)) (concat (buckets t))"
proof (rule concat_differ)
  fix i assume "i < length (buckets t)"
  then show "keys_differ (key_equals (hash_func t)) (buckets t ! i)"
    using inv by (simp add: table_inv_def)
next
  fix i j a b
  assume ij: "i < j" "j < length (buckets t)" and a: "a \<in> set (buckets t ! i)" and b: "b \<in> set (buckets t ! j)"
  have l: "length (buckets t) = capacity t" using inv by (simp add: table_inv_def)
  have "hash (hash_func t) (fst a) (capacity t) = i" "hash (hash_func t) (fst b) (capacity t) = j"
    using table_inv_bucket [OF inv] ij a b l by simp_all
  then show "\<not> key_equals (hash_func t) (fst a) (fst b)"
    using vp_hash [OF table_inv_policy [OF inv]] ij(1) by fastforce
qed

lemma entry_in_own_bucket:
  assumes inv: "table_inv t" and e: "e \<in> set (concat (buckets t))"
    and eq: "key_equals (hash_func t) (fst e) k"
  shows "e \<in> set (buckets t ! hash (hash_func t) k (capacity t))"
proof -
  obtain ys where "ys \<in> set (buckets t)" "e \<in> set ys" using e by auto
  then obtain j where j: "j < length (buckets t)" "e \<in> set (buckets t ! j)"
    by (metis in_set_conv_nth)
  have l: "length (buckets t) = capacity t" using inv by (simp add: table_inv_def)
  have "hash (hash_func t) (fst e) (capacity t) = j"
    using table_inv_bucket [OF inv] j l by simp
  then have "hash (hash_func t) k (capacity t) = j"
    using vp_hash [OF table_inv_policy [OF inv] eq] by simp
  then show ?thesis using j by simp
qed

lemma lookup_Some_iff:
  assumes inv: "table_inv t"
  shows "bucket_lookup t k = Some v \<longleftrightarrow>
         (\<exists>e\<in>set (concat (buckets t)). key_equals (hash_func t) (fst e) k \<and> snd e = v)"
proof
  assume "bucket_lookup t k = Some v"
  then obtain e where "e \<in> set (buckets t ! hash (hash_func t) k (capacity t))"
    "key_equals (hash_func t) (fst e) k" "snd e = v"
    unfolding bucket_lookup_def
    using chain_find_SomeD [of "key_equals (hash_func t)" k
        "buckets t ! hash (hash_func t) k (capacity t)" v] by blast
  moreover have "hash (hash_func t) k (capacity t) < length (buckets t)"
    using table_inv_index [OF inv] .
  ultimately have "e \<in> set (concat (buckets t))" "key_equals (hash_func t) (fst e) k" "snd e = v"
    using nth_mem [of "hash (hash_func t) k (capacity t)" "buckets t"] by auto
  then show "\<exists>e\<in>set (concat (buckets t)). key_equals (hash_func t) (fst e) k \<and> snd e = v"
    by blast
next
  assume "\<exists>e\<in>set (concat (buckets t)). key_equals (hash_func t) (fst e) k \<and> snd e = v"
  then obtain e where e: "e \<in> set (concat (buckets t))" "key_equals (hash_func t) (fst e) k" "snd e = v"
    by blast
  let ?i = "hash (hash_func t) k (capacity t)"
  have i: "?i < capacity t" using table_inv_index [OF inv, of k] inv by (simp add: table_inv_def)
  note vp = table_inv_policy [OF inv]
  have "chain_find (key_equals (hash_func t)) k (buckets t ! ?i) = Some (snd e)"
    using chain_find_SomeI [of "key_equals (hash_func t)", OF vp_sym [OF vp] vp_trans [OF vp]
        table_inv_differ [OF inv i] entry_in_own_bucket [OF inv e(1,2)] e(2)] .
  then show "bucket_lookup t k = Some v" using e(3) by (simp add: bucket_lookup_def)
qed

lemma lookup_eq_of_same_entries:
  assumes "table_inv t" "table_inv t'" "hash_func t' = hash_func t"
    and "set (concat (buckets t')) = set (concat (buckets t))"
  shows "bucket_lookup t' k = bucket_lookup t k"
proof -
  have "\<And>v. bucket_lookup t' k = Some v \<longleftrightarrow> bucket_lookup t k = Some v"
    unfolding lookup_Some_iff [OF assms(1)] lookup_Some_iff [OF assms(2)] assms(3,4) ..
  then show ?thesis
    by (cases "bucket_lookup t k"; cases "bucket_lookup t' k") auto
qed

lemma rehash_fold:
  assumes "\<forall>e\<in>set es. hash hf (fst e) c < c" and "length bs = c"
  shows "length (fst (foldl (rehash_entry hf c) (bs, n) es)) = c \<and>
         snd (foldl (rehash_entry hf c) (bs, n) es) = n + length es \<and>
         mset (concat (fst (foldl (rehash_entry hf c) (bs, n) es))) = mset es + mset (concat bs) \<and>
         (\<forall>i<c. fst (foldl (rehash_entry hf c) (bs, n) es) ! i =
                 rev (filter (\<lambda>e. hash hf (fst e) c = i) es) @ bs ! i)"
  using assms
proof (induction es arbitrary: bs n)
  case Nil
  then show ?case by simp
next
  case (Cons e es)
  let ?idx = "hash hf (fst e) c"
  let ?bs1 = "bs[?idx := e # bs ! ?idx]"
  have idx: "?idx < length bs" using Cons.prems by simp
  have step: "rehash_entry hf c (bs, n) e = (?bs1, n + 1)"
    by (simp add: rehash_entry_def Let_def)
  have m: "mset (concat ?bs1) = add_mset e (mset (concat bs))"
    using concat_update_mset [OF idx, of "e # bs ! ?idx"] by simp
  have ih: "length (fst (foldl (rehash_entry hf c) (?bs1, n + 1) es)) = c \<and>
         snd (foldl (rehash_entry hf c) (?bs1, n + 1) es) = n + 1 + length es \<and>
         mset (concat (fst (foldl (rehash_entry hf c) (?bs1, n + 1) es))) = mset es + mset (concat ?bs1) \<and>
         (\<forall>i<c. fst (foldl (rehash_entry hf c) (?bs1, n + 1) es) ! i =
                 rev (filter (\<lambda>e. hash hf (fst e) c = i) es) @ ?bs1 ! i)"
    by (rule Cons.IH) (use Cons.prems in simp_all)
  show ?case
    using ih idx Cons.prems(2) by (simp add: step m nth_list_update)
qed

lemma resize_props:
  assumes inv: "table_inv t" and c: "0 < c"
  shows "table_inv (hashtable_resize t c)"
    and "capacity (hashtable_resize t c) = c"
    and "hash_func (hashtable_resize t c) = hash_func t"
    and "load_factor_threshold (hashtable_resize t c) = load_factor_threshold t"
    and "size_ht (hashtable_resize t c) = size_ht t"
    and "mset (concat (buckets (hashtable_resize t c))) = mset (concat (buckets t))"
    and "\<And>i. i < c \<Longrightarrow> buckets (hashtable_resize t c) ! i =
           rev (filter (\<lambda>e. hash (hash_func t) (fst e) c = i) (concat (buckets t)))"
proof -
  let ?hf = "hash_func t" and ?es = "concat (buckets t)"
  let ?st = "foldl (rehash_entry ?hf c) (replicate c [], 0) ?es"
  have vp: "valid_policy ?hf" using inv by (simp add: table_inv_def)
  have f: "length (fst ?st) = c \<and> snd ?st = 0 + length ?es \<and>
           mset (concat (fst ?st)) = mset ?es + mset (concat (replicate c [])) \<and>
           (\<forall>i<c. fst ?st ! i = rev (filter (\<lambda>e. hash ?hf (fst e) c = i) ?es) @ replicate c [] ! i)"
    by (rule rehash_fold) (use vp_range [OF vp c] in simp_all)
  have b: "buckets (hashtable_resize t c) = fst ?st" "size_ht (hashtable_resize t c) = snd ?st"
    by (simp_all add: hashtable_resize_def Let_def)
  show cap: "capacity (hashtable_resize t c) = c" by (simp add: hashtable_resize_def Let_def)
  show hf: "hash_func (hashtable_resize t c) = hash_func t" by (simp add: hashtable_resize_def Let_def)
  show "load_factor_threshold (hashtable_resize t c) = load_factor_threshold t"
    by (simp add: hashtable_resize_def Let_def)
  show sz: "size_ht (hashtable_resize t c) = size_ht t"
    using f b inv by (simp add: table_inv_def)
  have "concat (replicate c ([] :: 'a HashEntry list)) = []" by (induction c) simp_all
  then show ms: "mset (concat (buckets (hashtable_resize t c))) = mset ?es"
    using f b by simp
  show ch: "\<And>i. i < c \<Longrightarrow> buckets (hashtable_resize t c) ! i =
           rev (filter (\<lambda>e. hash ?hf (fst e) c = i) ?es)"
    using f b by simp
  have d: "keys_differ (key_equals ?hf) ?es" using table_entries_differ [OF inv] .
  have len: "length (concat (buckets (hashtable_resize t c))) = length ?es"
    using ms by (metis size_mset)
  have kd: "\<And>i. i < c \<Longrightarrow> keys_differ (key_equals ?hf) (buckets (hashtable_resize t c) ! i)"
  proof -
    fix i assume i: "i < c"
    have "sorted_wrt (\<lambda>a b. \<not> key_equals ?hf (fst b) (fst a)) ?es"
      using d [unfolded keys_differ_def]
      by (rule sorted_wrt_mono_rel [rotated]) (use vp_sym [OF vp] in blast)
    then have "sorted_wrt (\<lambda>a b. \<not> key_equals ?hf (fst b) (fst a))
        (filter (\<lambda>e. hash ?hf (fst e) c = i) ?es)"
      by (rule sorted_wrt_filter)
    then show "keys_differ (key_equals ?hf) (buckets (hashtable_resize t c) ! i)"
      unfolding keys_differ_def ch [OF i] sorted_wrt_rev .
  qed
  have hb: "\<And>i e. i < c \<Longrightarrow> e \<in> set (buckets (hashtable_resize t c) ! i) \<Longrightarrow>
      hash ?hf (fst e) c = i"
    using ch by simp
  have lb: "length (buckets (hashtable_resize t c)) = c" using f b by simp
  have "size_ht t = length ?es" using inv by (simp add: table_inv_def)
  then have sl: "size_ht (hashtable_resize t c) = length (concat (buckets (hashtable_resize t c)))"
    using sz len by simp
  show "table_inv (hashtable_resize t c)"
    unfolding table_inv_def
  proof (intro conjI allI impI ballI)
    show "valid_policy (hash_func (hashtable_resize t c))" using vp hf by simp
    show "0 < capacity (hashtable_resize t c)" using c cap by simp
    show "length (buckets (hashtable_resize t c)) = capacity (hashtable_resize t c)"
      using lb cap by simp
    show "size_ht (hashtable_resize t c) = length (concat (buckets (hashtable_resize t c)))"
      using sl .
  next
    fix i e assume "i < capacity (hashtable_resize t c)" "e \<in> set (buckets (hashtable_resize t c) ! i)"
    then show "hash (hash_func (hashtable_resize t c)) (fst e) (capacity (hashtable_resize t c)) = i"
      using hb [of i e] by (simp only: cap hf)
  next
    fix i assume "i < capacity (hashtable_resize t c)"
    then show "keys_differ (key_equals (hash_func (hashtable_resize t c))) (buckets (hashtable_resize t c) ! i)"
      using kd [of i] by (simp only: cap hf)
  qed
qed

lemma resize_lookup:
  assumes inv: "table_inv t" and c: "0 < c"
  shows "bucket_lookup (hashtable_resize t c) k = bucket_lookup t k"
proof (rule lookup_eq_of_same_entries [OF inv resize_props(1) [OF inv c] resize_props(3) [OF inv c]])
  show "set (concat (buckets (hashtable_resize t c))) = set (concat (buckets t))"
    using resize_props(6) [OF inv c] by (metis set_mset_mset)
qed

lemma table_inv_length: "table_inv t \<Longrightarrow> length (buckets t) = capacity t"
  unfolding table_inv_def by blast

lemma table_inv_size: "table_inv t \<Longrightarrow> size_ht t = length (concat (buckets t))"
  unfolding table_inv_def by blast

lemma table_inv_cap: "table_inv t \<Longrightarrow> 0 < capacity t"
  unfolding table_inv_def by blast

lemma keys_differ_map: "keys_differ eq ch \<longleftrightarrow> sorted_wrt (\<lambda>a b. \<not> eq a b) (map fst ch)"
  by (simp add: keys_differ_def sorted_wrt_map)

lemma table_inv_update:
  assumes inv: "table_inv t" and i: "i < capacity t"
    and hf: "hash_func t' = hash_func t" and cap: "capacity t' = capacity t"
    and bs: "buckets t' = (buckets t)[i := ch]"
    and sz: "size_ht t' + length (buckets t ! i) = size_ht t + length ch"
    and hb: "\<And>e. e \<in> set ch \<Longrightarrow> hash (hash_func t) (fst e) (capacity t) = i"
    and kd: "keys_differ (key_equals (hash_func t)) ch"
  shows "table_inv t'"
proof -
  have l: "length (buckets t) = capacity t" and s: "size_ht t = length (concat (buckets t))"
    using table_inv_length [OF inv] table_inv_size [OF inv] .
  have "length (concat (buckets t')) + length (buckets t ! i) = length (concat (buckets t)) + length ch"
    unfolding bs using concat_update_length [of i "buckets t" ch] i l by simp
  then have s': "size_ht t' = length (concat (buckets t'))" using sz s by simp
  show ?thesis
    unfolding table_inv_def
  proof (intro conjI allI impI ballI)
    show "valid_policy (hash_func t')" using table_inv_policy [OF inv] hf by simp
    show "0 < capacity t'" using i cap by simp
    show "length (buckets t') = capacity t'" using l cap bs by simp
    show "size_ht t' = length (concat (buckets t'))" using s' .
  next
    fix j e assume j: "j < capacity t'" and e: "e \<in> set (buckets t' ! j)"
    show "hash (hash_func t') (fst e) (capacity t') = j"
    proof (cases "j = i")
      case True
      then show ?thesis using e hb [of e] i l by (simp add: bs hf cap)
    next
      case False
      then show ?thesis using e table_inv_bucket [OF inv, of j e] j by (simp add: bs hf cap)
    qed
  next
    fix j assume j: "j < capacity t'"
    show "keys_differ (key_equals (hash_func t')) (buckets t' ! j)"
    proof (cases "j = i")
      case True
      then show ?thesis using kd i l by (simp add: bs hf)
    next
      case False
      then show ?thesis using table_inv_differ [OF inv, of j] j by (simp add: bs hf cap)
    qed
  qed
qed

lemma lookup_update:
  assumes inv: "table_inv t"
    and hf: "hash_func t' = hash_func t" and cap: "capacity t' = capacity t"
    and bs: "buckets t' = (buckets t)[hash (hash_func t) k (capacity t) := ch]"
    and f: "chain_find (key_equals (hash_func t)) k' ch =
            (if key_equals (hash_func t) k k' then r
             else chain_find (key_equals (hash_func t)) k' (buckets t ! hash (hash_func t) k (capacity t)))"
  shows "bucket_lookup t' k' = (if key_equals (hash_func t) k k' then r else bucket_lookup t k')"
proof -
  let ?hf = "hash_func t"
  let ?i = "hash ?hf k (capacity t)" and ?j = "hash ?hf k' (capacity t)"
  have i: "?i < length (buckets t)" using table_inv_index [OF inv] .
  show ?thesis
  proof (cases "?j = ?i")
    case True
    then show ?thesis using f i by (simp add: bucket_lookup_def hf cap bs)
  next
    case False
    then have "\<not> key_equals ?hf k k'" using vp_hash [OF table_inv_policy [OF inv], of k k'] by auto
    then show ?thesis using False by (simp add: bucket_lookup_def hf cap bs)
  qed
qed

lemma put_resized_props:
  assumes inv: "table_inv t"
  shows "table_inv (put_resized t)"
    and "hash_func (put_resized t) = hash_func t"
    and "load_factor_threshold (put_resized t) = load_factor_threshold t"
    and "size_ht (put_resized t) = size_ht t"
    and "capacity (put_resized t) = (if grows t then capacity t * 2 else capacity t)"
    and "mset (concat (buckets (put_resized t))) = mset (concat (buckets t))"
    and "bucket_lookup (put_resized t) k = bucket_lookup t k"
proof -
  have c: "0 < capacity t * HASHTABLE_GROWTH_FACTOR"
    using table_inv_cap [OF inv] by (simp add: HASHTABLE_GROWTH_FACTOR_def)
  note r = resize_props [OF inv c] resize_lookup [OF inv c]
  show "table_inv (put_resized t)" using r(1) inv by (simp add: put_resized_def)
  show "hash_func (put_resized t) = hash_func t" using r(3) by (simp add: put_resized_def)
  show "load_factor_threshold (put_resized t) = load_factor_threshold t"
    using r(4) by (simp add: put_resized_def)
  show "size_ht (put_resized t) = size_ht t" using r(5) by (simp add: put_resized_def)
  show "capacity (put_resized t) = (if grows t then capacity t * 2 else capacity t)"
    using r(2) by (simp add: put_resized_def HASHTABLE_GROWTH_FACTOR_def)
  show "mset (concat (buckets (put_resized t))) = mset (concat (buckets t))"
    using r(6) by (simp add: put_resized_def)
  show "bucket_lookup (put_resized t) k = bucket_lookup t k"
    using r(8) by (simp add: put_resized_def)
qed

lemma hashtable_put_unfold:
  "hashtable_put ok t k v =
     (let t1 = put_resized t; i = hash (hash_func t1) k (capacity t1)
      in case chain_update (key_equals (hash_func t1)) k v (buckets t1 ! i) of
           Some ch \<Rightarrow> (True, t1\<lparr>buckets := (buckets t1)[i := ch]\<rparr>)
         | None \<Rightarrow>
             if ok then (True, t1\<lparr>buckets := (buckets t1)[i := (key_copy (hash_func t1) k, v) # (buckets t1 ! i)],
                                 size_ht := size_ht t1 + 1\<rparr>)
             else (False, t1))"
  by (simp add: hashtable_put_def put_resized_def grows_def hashtable_create_entry_def Let_def
      split: option.splits)

lemma put_present:
  assumes inv: "table_inv t" and pres: "hashtable_has_key t k"
  shows "fst (hashtable_put ok t k v) = True"
    and "table_inv (snd (hashtable_put ok t k v))"
    and "hash_func (snd (hashtable_put ok t k v)) = hash_func t"
    and "load_factor_threshold (snd (hashtable_put ok t k v)) = load_factor_threshold t"
    and "capacity (snd (hashtable_put ok t k v)) = (if grows t then capacity t * 2 else capacity t)"
    and "size_ht (snd (hashtable_put ok t k v)) = size_ht t"
    and "bucket_lookup (snd (hashtable_put ok t k v)) k' =
           (if key_equals (hash_func t) k k' then Some v else bucket_lookup t k')"
    and "mset (map fst (concat (buckets (snd (hashtable_put ok t k v))))) =
         mset (map fst (concat (buckets t)))"
proof -
  let ?t1 = "put_resized t"
  let ?hf = "hash_func t"
  let ?i = "hash ?hf k (capacity ?t1)"
  note p = put_resized_props [OF inv]
  have i: "?i < capacity ?t1" "?i < length (buckets ?t1)"
    using table_inv_index [OF p(1), of k] table_inv_length [OF p(1)] by (simp_all add: p(2))
  have "chain_find (key_equals ?hf) k (buckets ?t1 ! ?i) \<noteq> None"
    using pres p(7) [of k] by (simp add: hashtable_has_key_def bucket_lookup_def p(2))
  then obtain ch where ch: "chain_update (key_equals ?hf) k v (buckets ?t1 ! ?i) = Some ch"
    using chain_update_None [of "key_equals ?hf" k v "buckets ?t1 ! ?i"] by auto
  let ?t' = "?t1\<lparr>buckets := (buckets ?t1)[?i := ch]\<rparr>"
  have put: "hashtable_put ok t k v = (True, ?t')"
    using ch by (simp add: hashtable_put_unfold Let_def p(2))
  have keys: "map fst ch = map fst (buckets ?t1 ! ?i)" using chain_update_keys [OF ch] .
  then have len: "length ch = length (buckets ?t1 ! ?i)" by (metis length_map)
  have sets: "fst ` set ch = fst ` set (buckets ?t1 ! ?i)" using keys by (metis set_map)
  show "fst (hashtable_put ok t k v) = True" by (simp add: put)
  show inv': "table_inv (snd (hashtable_put ok t k v))"
    unfolding put snd_conv
  proof (rule table_inv_update [OF p(1) i(1)])
    fix e assume "e \<in> set ch"
    then have "fst e \<in> fst ` set ch" by (rule imageI)
    then have "fst e \<in> fst ` set (buckets ?t1 ! ?i)" unfolding sets .
    then obtain e' where "e' \<in> set (buckets ?t1 ! ?i)" "fst e' = fst e" by auto
    then show "hash (hash_func ?t1) (fst e) (capacity ?t1) = ?i"
      using table_inv_bucket [OF p(1) i(1), of e'] by simp
  next
    show "keys_differ (key_equals (hash_func ?t1)) ch"
      using table_inv_differ [OF p(1) i(1)] keys by (simp add: keys_differ_map p(2))
  qed (simp_all add: len)
  show "hash_func (snd (hashtable_put ok t k v)) = hash_func t" by (simp add: put p(2))
  show "load_factor_threshold (snd (hashtable_put ok t k v)) = load_factor_threshold t"
    by (simp add: put p(3))
  show "capacity (snd (hashtable_put ok t k v)) = (if grows t then capacity t * 2 else capacity t)"
    by (simp add: put p(5))
  show "size_ht (snd (hashtable_put ok t k v)) = size_ht t" by (simp add: put p(4))
  have vp: "valid_policy (hash_func ?t1)" using table_inv_policy [OF p(1)] .
  have "bucket_lookup ?t' k' = (if key_equals (hash_func ?t1) k k' then Some v else bucket_lookup ?t1 k')"
  proof (rule lookup_update [OF p(1)])
    show "chain_find (key_equals (hash_func ?t1)) k' ch =
      (if key_equals (hash_func ?t1) k k' then Some v
       else chain_find (key_equals (hash_func ?t1)) k' (buckets ?t1 ! hash (hash_func ?t1) k (capacity ?t1)))"
      by (rule chain_update_find [OF vp_sym [OF vp] vp_trans [OF vp]]) (use ch in \<open>simp_all add: p(2)\<close>)
  qed (simp_all add: p(2))
  then show "bucket_lookup (snd (hashtable_put ok t k v)) k' =
           (if key_equals (hash_func t) k k' then Some v else bucket_lookup t k')"
    by (simp add: put p(2) p(7))
  have "mset (concat (buckets ?t')) + mset (buckets ?t1 ! ?i) = mset (concat (buckets ?t1)) + mset ch"
    using concat_update_mset [OF i(2), of ch] by simp
  then have "image_mset fst (mset (concat (buckets ?t'))) + image_mset fst (mset (buckets ?t1 ! ?i)) =
        image_mset fst (mset (concat (buckets ?t1))) + image_mset fst (mset ch)"
    by (metis image_mset_union)
  moreover have "image_mset fst (mset ch) = image_mset fst (mset (buckets ?t1 ! ?i))"
    using keys by (metis mset_map)
  ultimately have "image_mset fst (mset (concat (buckets ?t'))) = image_mset fst (mset (concat (buckets ?t1)))"
    by simp
  then show "mset (map fst (concat (buckets (snd (hashtable_put ok t k v))))) =
         mset (map fst (concat (buckets t)))"
    by (simp add: put p(6))
qed

lemma put_absent:
  assumes inv: "table_inv t" and abs: "\<not> hashtable_has_key t k"
  shows "fst (hashtable_put ok t k v) = ok"
    and "table_inv (snd (hashtable_put ok t k v))"
    and "hash_func (snd (hashtable_put ok t k v)) = hash_func t"
    and "load_factor_threshold (snd (hashtable_put ok t k v)) = load_factor_threshold t"
    and "capacity (snd (hashtable_put ok t k v)) = (if grows t then capacity t * 2 else capacity t)"
    and "size_ht (snd (hashtable_put ok t k v)) = (if ok then size_ht t + 1 else size_ht t)"
    and "bucket_lookup (snd (hashtable_put ok t k v)) k' =
           (if ok \<and> key_equals (hash_func t) k k' then Some v else bucket_lookup t k')"
proof -
  let ?t1 = "put_resized t"
  let ?hf = "hash_func t"
  let ?i = "hash ?hf k (capacity ?t1)"
  note p = put_resized_props [OF inv]
  have vp: "valid_policy ?hf" using table_inv_policy [OF inv] .
  have i: "?i < capacity ?t1" "?i < length (buckets ?t1)"
    using table_inv_index [OF p(1), of k] table_inv_length [OF p(1)] by (simp_all add: p(2))
  have none: "chain_find (key_equals ?hf) k (buckets ?t1 ! ?i) = None"
    using abs p(7) [of k] by (simp add: hashtable_has_key_def bucket_lookup_def p(2))
  then have un: "chain_update (key_equals ?hf) k v (buckets ?t1 ! ?i) = None"
    by (simp add: chain_update_None)
  let ?e = "(key_copy ?hf k, v)"
  let ?t' = "?t1\<lparr>buckets := (buckets ?t1)[?i := ?e # (buckets ?t1 ! ?i)], size_ht := size_ht ?t1 + 1\<rparr>"
  have put: "hashtable_put ok t k v = (if ok then (True, ?t') else (False, ?t1))"
    using un by (simp add: hashtable_put_unfold Let_def p(2))
  have ck: "key_equals ?hf (key_copy ?hf k) k" using vp_copy [OF vp] .
  have inv': "table_inv ?t'"
  proof (rule table_inv_update [OF p(1) i(1)])
    fix e assume e: "e \<in> set (?e # (buckets ?t1 ! ?i))"
    show "hash (hash_func ?t1) (fst e) (capacity ?t1) = ?i"
    proof (cases "e = ?e")
      case True
      then show ?thesis using vp_hash [OF vp ck] by (simp add: p(2))
    next
      case False
      then show ?thesis using e table_inv_bucket [OF p(1) i(1), of e] by simp
    qed
  next
    have "\<forall>e\<in>set (buckets ?t1 ! ?i). \<not> key_equals ?hf (fst e) k"
      using none by (simp add: chain_find_None)
    then have "\<forall>e\<in>set (buckets ?t1 ! ?i). \<not> key_equals ?hf (key_copy ?hf k) (fst e)"
      using vp_sym [OF vp] vp_trans [OF vp] ck by blast
    then show "keys_differ (key_equals (hash_func ?t1)) (?e # (buckets ?t1 ! ?i))"
      using table_inv_differ [OF p(1) i(1)] by (simp add: keys_differ_def p(2))
  qed simp_all
  show "fst (hashtable_put ok t k v) = ok" by (simp add: put)
  show "table_inv (snd (hashtable_put ok t k v))" using inv' p(1) by (simp add: put)
  show "hash_func (snd (hashtable_put ok t k v)) = hash_func t" by (simp add: put p(2))
  show "load_factor_threshold (snd (hashtable_put ok t k v)) = load_factor_threshold t"
    by (simp add: put p(3))
  show "capacity (snd (hashtable_put ok t k v)) = (if grows t then capacity t * 2 else capacity t)"
    by (simp add: put p(5))
  show "size_ht (snd (hashtable_put ok t k v)) = (if ok then size_ht t + 1 else size_ht t)"
    by (simp add: put p(4))
  have "bucket_lookup ?t' k' = (if key_equals (hash_func ?t1) k k' then Some v else bucket_lookup ?t1 k')"
  proof (rule lookup_update [OF p(1)])
    have "key_equals ?hf (key_copy ?hf k) k' \<longleftrightarrow> key_equals ?hf k k'"
      using vp_sym [OF vp] vp_trans [OF vp] ck by blast
    then show "chain_find (key_equals (hash_func ?t1)) k' (?e # (buckets ?t1 ! ?i)) =
      (if key_equals (hash_func ?t1) k k' then Some v
       else chain_find (key_equals (hash_func ?t1)) k' (buckets ?t1 ! hash (hash_func ?t1) k (capacity ?t1)))"
      by (simp add: p(2))
  qed (simp_all add: p(2))
  then show "bucket_lookup (snd (hashtable_put ok t k v)) k' =
           (if ok \<and> key_equals (hash_func t) k k' then Some v else bucket_lookup t k')"
    by (simp add: put p(2) p(7))
qed

lemma remove_present:
  assumes inv: "table_inv t" and pres: "hashtable_has_key t k"
  shows "fst (hashtable_remove t k) = True"
    and "table_inv (snd (hashtable_remove t k))"
    and "hash_func (snd (hashtable_remove t k)) = hash_func t"
    and "load_factor_threshold (snd (hashtable_remove t k)) = load_factor_threshold t"
    and "capacity (snd (hashtable_remove t k)) = capacity t"
    and "Suc (size_ht (snd (hashtable_remove t k))) = size_ht t"
    and "bucket_lookup (snd (hashtable_remove t k)) k' =
           (if key_equals (hash_func t) k k' then None else bucket_lookup t k')"
proof -
  let ?hf = "hash_func t"
  let ?i = "hash ?hf k (capacity t)"
  have vp: "valid_policy ?hf" using table_inv_policy [OF inv] .
  have i: "?i < capacity t" "?i < length (buckets t)"
    using table_inv_index [OF inv, of k] table_inv_length [OF inv] by simp_all
  have "chain_find (key_equals ?hf) k (buckets t ! ?i) \<noteq> None"
    using pres by (simp add: hashtable_has_key_def bucket_lookup_def)
  then obtain ch where ch: "chain_remove (key_equals ?hf) k (buckets t ! ?i) = Some ch"
    using chain_remove_None [of "key_equals ?hf" k "buckets t ! ?i"] by auto
  let ?t' = "t\<lparr>buckets := (buckets t)[?i := ch], size_ht := size_ht t - 1\<rparr>"
  have rm: "hashtable_remove t k = (True, ?t')"
    using ch by (simp add: hashtable_remove_def Let_def)
  have len: "length (buckets t ! ?i) = Suc (length ch)" using chain_remove_length [OF ch] .
  have "length (buckets t ! ?i) \<le> length (concat (buckets t))"
    using concat_update_length [OF i(2), of "[]"] by simp
  then have pos: "0 < size_ht t" using len table_inv_size [OF inv] by linarith
  show "fst (hashtable_remove t k) = True" by (simp add: rm)
  show "table_inv (snd (hashtable_remove t k))"
    unfolding rm snd_conv
  proof (rule table_inv_update [OF inv i(1)])
    fix e assume "e \<in> set ch"
    then have "e \<in> set (buckets t ! ?i)" using chain_remove_subset [OF ch] by auto
    then show "hash ?hf (fst e) (capacity t) = ?i" using table_inv_bucket [OF inv i(1)] by simp
  next
    show "keys_differ (key_equals ?hf) ch"
      using chain_remove_differ [OF ch table_inv_differ [OF inv i(1)]] .
  qed (use len pos in simp_all)
  show "hash_func (snd (hashtable_remove t k)) = hash_func t" by (simp add: rm)
  show "load_factor_threshold (snd (hashtable_remove t k)) = load_factor_threshold t" by (simp add: rm)
  show "capacity (snd (hashtable_remove t k)) = capacity t" by (simp add: rm)
  show "Suc (size_ht (snd (hashtable_remove t k))) = size_ht t" using pos by (simp add: rm)
  have "bucket_lookup ?t' k' = (if key_equals ?hf k k' then None else bucket_lookup t k')"
  proof (rule lookup_update [OF inv])
    show "chain_find (key_equals ?hf) k' ch =
      (if key_equals ?hf k k' then None else chain_find (key_equals ?hf) k' (buckets t ! ?i))"
      by (rule chain_remove_find [OF vp_sym [OF vp] vp_trans [OF vp] ch table_inv_differ [OF inv i(1)]])
  qed simp_all
  then show "bucket_lookup (snd (hashtable_remove t k)) k' =
           (if key_equals (hash_func t) k k' then None else bucket_lookup t k')"
    by (simp add: rm)
qed

lemma remove_absent:
  assumes abs: "\<not> hashtable_has_key t k"
  shows "hashtable_remove t k = (False, t)"
proof -
  have "chain_remove (key_equals (hash_func t)) k (buckets t ! hash (hash_func t) k (capacity t)) = None"
    using abs by (simp add: chain_remove_None hashtable_has_key_def bucket_lookup_def)
  then show ?thesis by (simp add: hashtable_remove_def Let_def)
qed

lemma get_lookup: "hashtable_get t k = (case bucket_lookup t k of Some v \<Rightarrow> v | None \<Rightarrow> NULL)"
  by (simp add: hashtable_get_def bucket_lookup_def Let_def)

lemma init_inv: "valid_policy hf \<Longrightarrow> table_inv (hashtable_init c hf)"
  unfolding table_inv_def
  by (simp add: hashtable_init_def HASHTABLE_MIN_SIZE_def Let_def keys_differ_def)

lemma init_lookup: "valid_policy hf \<Longrightarrow> bucket_lookup (hashtable_init c hf) k = None"
proof -
  assume vp: "valid_policy hf"
  let ?c = "if c < HASHTABLE_MIN_SIZE then HASHTABLE_MIN_SIZE else c"
  have "hash hf k ?c < ?c" by (rule vp_range [OF vp]) (simp add: HASHTABLE_MIN_SIZE_def)
  then have "replicate ?c ([] :: 'a HashEntry list) ! hash hf k ?c = []" by (rule nth_replicate)
  then show ?thesis by (simp add: bucket_lookup_def hashtable_init_def Let_def)
qed

lemma latest_binding_snoc:
  "latest_binding eq (ops @ [op]) k =
     (if eq (op_key op) k then op_binding op else latest_binding eq ops k)"
  by (simp add: latest_binding_def)

lemma live_keys_snoc: "live_keys eq (ops @ [op]) = live_step eq (live_keys eq ops) op"
  by (simp add: live_keys_def)

lemma filter_one_out:
  assumes sym: "\<And>a b. eq a b \<Longrightarrow> eq b a" and trans: "\<And>a b c. eq a b \<Longrightarrow> eq b c \<Longrightarrow> eq a c"
  shows "sorted_wrt (\<lambda>a b. \<not> eq a b) ks \<Longrightarrow> \<exists>k\<in>set ks. eq k key \<Longrightarrow>
         Suc (length (filter (\<lambda>k. \<not> eq k key) ks)) = length ks"
proof (induction ks)
  case Nil
  then show ?case by simp
next
  case (Cons x ks)
  show ?case
  proof (cases "eq x key")
    case True
    have "\<forall>y\<in>set ks. \<not> eq y key"
    proof
      fix y assume y: "y \<in> set ks"
      then have "\<not> eq x y" using Cons.prems(1) by simp
      then show "\<not> eq y key" using True sym trans by blast
    qed
    then have "filter (\<lambda>k. \<not> eq k key) ks = ks" by (simp add: filter_id_conv)
    then show ?thesis using True by simp
  next
    case False
    then have "\<exists>k\<in>set ks. eq k key" using Cons.prems(2) by auto
    then show ?thesis using Cons.IH Cons.prems(1) False by simp
  qed
qed

lemma live_keys_spec:
  assumes refl: "\<And>a. eq a a" and sym: "\<And>a b. eq a b \<Longrightarrow> eq b a"
    and trans: "\<And>a b c. eq a b \<Longrightarrow> eq b c \<Longrightarrow> eq a c"
  shows "sorted_wrt (\<lambda>a b. \<not> eq a b) (live_keys eq ops) \<and>
         (\<forall>k. (\<exists>k'\<in>set (live_keys eq ops). eq k' k) \<longleftrightarrow> latest_binding eq ops k \<noteq> None)"
proof (induction ops rule: rev_induct)
  case Nil
  show ?case by (simp add: live_keys_def latest_binding_def)
next
  case (snoc op ops)
  let ?ks = "live_keys eq ops"
  note s = snoc.IH [THEN conjunct1] and m = snoc.IH [THEN conjunct2, rule_format]
  show ?case
  proof (cases op)
    case (Put ok k0 v)
    have mem: "\<And>k. (\<exists>k'\<in>set (live_step eq ?ks op). eq k' k) \<longleftrightarrow> eq k0 k \<or> (\<exists>k'\<in>set ?ks. eq k' k)"
    proof (cases "\<exists>k'\<in>set ?ks. eq k' k0")
      case True
      then obtain k'' where k'': "k'' \<in> set ?ks" "eq k'' k0" by blast
      fix k
      have "eq k0 k \<Longrightarrow> \<exists>k'\<in>set ?ks. eq k' k" using k'' trans by blast
      then show "(\<exists>k'\<in>set (live_step eq ?ks op). eq k' k) \<longleftrightarrow> eq k0 k \<or> (\<exists>k'\<in>set ?ks. eq k' k)"
        using True Put by (auto simp: list_ex_iff)
    next
      case False
      fix k
      show "(\<exists>k'\<in>set (live_step eq ?ks op). eq k' k) \<longleftrightarrow> eq k0 k \<or> (\<exists>k'\<in>set ?ks. eq k' k)"
        using False Put by (auto simp: list_ex_iff)
    qed
    have "sorted_wrt (\<lambda>a b. \<not> eq a b) (live_step eq ?ks op)"
      using s Put by (auto simp: list_ex_iff sorted_wrt_append)
    then show ?thesis
      using mem m Put by (simp add: live_keys_snoc latest_binding_snoc)
  next
    case (Remove k0)
    have mem: "\<And>k. (\<exists>k'\<in>set (live_step eq ?ks op). eq k' k) \<longleftrightarrow> \<not> eq k0 k \<and> (\<exists>k'\<in>set ?ks. eq k' k)"
    proof -
      fix k
      have "\<And>k'. eq k' k \<Longrightarrow> (\<not> eq k' k0) = (\<not> eq k0 k)" using sym trans by blast
      then show "(\<exists>k'\<in>set (live_step eq ?ks op). eq k' k) \<longleftrightarrow> \<not> eq k0 k \<and> (\<exists>k'\<in>set ?ks. eq k' k)"
        using Remove by auto
    qed
    have "sorted_wrt (\<lambda>a b. \<not> eq a b) (live_step eq ?ks op)"
      using s Remove by (simp add: sorted_wrt_filter)
    then show ?thesis
      using mem m Remove by (simp add: live_keys_snoc latest_binding_snoc)
  qed
qed

lemma has_key_lookup: "hashtable_has_key t k \<longleftrightarrow> bucket_lookup t k \<noteq> None"
  by (simp add: hashtable_has_key_def)

lemma run_refines:
  assumes vp: "valid_policy hf"
  shows "list_all op_allocated ops \<Longrightarrow>
         table_inv (foldl table_step (hashtable_init c hf) ops) \<and>
         hash_func (foldl table_step (hashtable_init c hf) ops) = hf \<and>
         (\<forall>k. bucket_lookup (foldl table_step (hashtable_init c hf) ops) k =
               latest_binding (key_equals hf) ops k) \<and>
         size_ht (foldl table_step (hashtable_init c hf) ops) = length (live_keys (key_equals hf) ops)"
proof (induction ops rule: rev_induct)
  case Nil
  show ?case
    using init_inv [OF vp] init_lookup [OF vp]
    by (simp add: latest_binding_def live_keys_def) (simp add: hashtable_init_def Let_def)
next
  case (snoc op ops)
  let ?eq = "key_equals hf"
  let ?t = "foldl table_step (hashtable_init c hf) ops"
  let ?ks = "live_keys ?eq ops"
  have alloc: "list_all op_allocated ops" "op_allocated op" using snoc.prems by simp_all
  note ih = snoc.IH [OF alloc(1)]
  have inv: "table_inv ?t" and hf: "hash_func ?t = hf"
    and lk: "\<And>k. bucket_lookup ?t k = latest_binding ?eq ops k"
    and sz: "size_ht ?t = length ?ks"
    using ih by simp_all
  note spec = live_keys_spec [of ?eq ops, OF vp_refl [OF vp] vp_sym [OF vp] vp_trans [OF vp]]
  have srt: "sorted_wrt (\<lambda>a b. \<not> ?eq a b) ?ks" using spec by simp
  have mem: "\<And>k. (\<exists>k'\<in>set ?ks. ?eq k' k) \<longleftrightarrow> hashtable_has_key ?t k"
    using spec lk by (simp add: has_key_lookup)
  show ?case
  proof (cases op)
    case (Put ok k0 v)
    then have ok: "ok" using alloc(2) by simp
    show ?thesis
    proof (cases "hashtable_has_key ?t k0")
      case True
      note p = put_present [OF inv True, of True v]
      have "live_step ?eq ?ks op = ?ks" using mem [of k0] True Put by (simp add: list_ex_iff)
      then show ?thesis
        using p(2,3,6,7) Put ok hf lk sz by (simp add: latest_binding_snoc live_keys_snoc)
    next
      case False
      note p = put_absent [OF inv False, of True v]
      have "live_step ?eq ?ks op = ?ks @ [k0]" using mem [of k0] False Put by (simp add: list_ex_iff)
      then show ?thesis
        using p(2,3,6,7) Put ok hf lk sz by (simp add: latest_binding_snoc live_keys_snoc)
    qed
  next
    case (Remove k0)
    show ?thesis
    proof (cases "hashtable_has_key ?t k0")
      case True
      note r = remove_present [OF inv True]
      have "Suc (length (live_step ?eq ?ks op)) = length ?ks"
        using filter_one_out [of ?eq ?ks k0, OF vp_sym [OF vp] vp_trans [OF vp] srt] mem [of k0] True Remove
        by simp
      then have "size_ht (snd (hashtable_remove ?t k0)) = length (live_step ?eq ?ks op)"
        using r(6) sz by simp
      then show ?thesis
        using r(2,3,7) Remove hf lk by (simp add: latest_binding_snoc live_keys_snoc)
    next
      case False
      have none: "\<And>k. ?eq k0 k \<Longrightarrow> latest_binding ?eq ops k = None"
      proof -
        fix k assume e: "?eq k0 k"
        have "\<not> (\<exists>k'\<in>set ?ks. ?eq k' k0)" using mem [of k0] False by simp
        then have "\<not> (\<exists>k'\<in>set ?ks. ?eq k' k)" using e vp_sym [OF vp] vp_trans [OF vp] by blast
        then show "latest_binding ?eq ops k = None" using mem [of k] lk [of k] by (simp add: has_key_lookup)
      qed
      have "\<forall>k'\<in>set ?ks. \<not> ?eq k' k0" using mem [of k0] False by blast
      then have "live_step ?eq ?ks op = ?ks" using Remove by (simp add: filter_id_conv)
      then show ?thesis
        using remove_absent [OF False] Remove inv hf lk sz none
        by (simp add: latest_binding_snoc live_keys_snoc)
    qed
  qed
qed

lemma int_policy_valid: "valid_policy INT_HASH_FUNC"
  unfolding valid_policy_def
  by (simp add: INT_HASH_FUNC_def hash_int_def hash_int_equals_def hash_int_copy_def)

lemma string_policy_valid: "valid_policy STRING_HASH_FUNC"
  unfolding valid_policy_def
  by (simp add: STRING_HASH_FUNC_def hash_string_djb2_def hash_string_equals_def hash_string_copy_def)

lemma replicate_numeral: "replicate (numeral n) x = x # replicate (pred_numeral n) x"
  by (simp add: numeral_eq_Suc)

lemma list_update_Cons_numeral: "(x # xs)[numeral n := y] = x # xs[pred_numeral n := y]"
  by (simp add: numeral_eq_Suc)

lemmas table_eval =
  replicate_numeral list_update_Cons_numeral
  hashtable_put_def hashtable_remove_def hashtable_get_def hashtable_contains_def
  hashtable_resize_def rehash_entry_def hashtable_init_def hashtable_create_entry_def
  hashtable_init_int_def hashtable_init_string_def hashtable_size_def
  hashtable_has_key_def bucket_lookup_def
  hashset_add_def hashset_init_def hashset_contains_def hashset_size_def hashset_remove_def
  HASHSET_DUMMY_VALUE_def
  HASHTABLE_MIN_SIZE_def HASHTABLE_LOAD_FACTOR_def HASHTABLE_GROWTH_FACTOR_def
  HASHTABLE_DEFAULT_SIZE_def
  INT_HASH_FUNC_def hash_int_def hash_int_equals_def hash_int_copy_def
  STRING_HASH_FUNC_def hash_string_djb2_def djb2_step_def hash_string_equals_def
  hash_string_copy_def Let_def

lemma grows_iff:
  "load_factor_threshold t = HASHTABLE_LOAD_FACTOR \<Longrightarrow> grows t \<longleftrightarrow> 3 * capacity t \<le> 4 * size_ht t"
proof -
  assume th: "load_factor_threshold t = HASHTABLE_LOAD_FACTOR"
  have "grows t \<longleftrightarrow> (3 / 4 :: rat) * of_nat (capacity t) \<le> of_nat (size_ht t)"
    by (simp add: grows_def th HASHTABLE_LOAD_FACTOR_def)
  also have "\<dots> \<longleftrightarrow> (of_nat (3 * capacity t) :: rat) \<le> of_nat (4 * size_ht t)"
    by (simp add: field_simps)
  also have "\<dots> \<longleftrightarrow> 3 * capacity t \<le> 4 * size_ht t"
    by (rule of_nat_le_iff)
  finally show ?thesis .
qed

lemma put_size_cases:
  assumes inv: "table_inv t"
  shows "table_inv (snd (hashtable_put ok t k v))"
    and "hash_func (snd (hashtable_put ok t k v)) = hash_func t"
    and "load_factor_threshold (snd (hashtable_put ok t k v)) = load_factor_threshold t"
    and "capacity (snd (hashtable_put ok t k v)) = (if grows t then capacity t * 2 else capacity t)"
    and "size_ht (snd (hashtable_put ok t k v)) \<le> size_ht t + 1"
  using put_present [OF inv, of k ok v] put_absent [OF inv, of k ok v]
  by (cases "hashtable_has_key t k"; simp)+

lemma remove_size_cases:
  assumes inv: "table_inv t"
  shows "table_inv (snd (hashtable_remove t k))"
    and "hash_func (snd (hashtable_remove t k)) = hash_func t"
    and "load_factor_threshold (snd (hashtable_remove t k)) = load_factor_threshold t"
    and "capacity (snd (hashtable_remove t k)) = capacity t"
    and "size_ht (snd (hashtable_remove t k)) \<le> size_ht t"
  using remove_present [OF inv, of k] remove_absent [of t k] inv
  by (cases "hashtable_has_key t k"; simp)+

lemma put_load_inv:
  assumes inv: "table_inv t" and l: "load_inv t"
  shows "load_inv (snd (hashtable_put ok t k v))"
proof -
  let ?t' = "snd (hashtable_put ok t k v)"
  note p = put_size_cases [OF inv, of ok k v]
  have th: "load_factor_threshold t = HASHTABLE_LOAD_FACTOR" and c8: "8 \<le> capacity t"
    and b: "4 * size_ht t \<le> 3 * capacity t + 3"
    and d: "4 dvd capacity t \<Longrightarrow> 4 * size_ht t \<le> 3 * capacity t"
    using l by (simp_all add: load_inv_def HASHTABLE_MIN_SIZE_def)
  show ?thesis
  proof (cases "grows t")
    case True
    then have cap: "capacity ?t' = capacity t * 2" using p(4) by simp
    have "4 * size_ht ?t' \<le> 3 * capacity ?t'" using p(5) b c8 cap by simp
    then show ?thesis using p(3) th cap c8 by (simp add: load_inv_def HASHTABLE_MIN_SIZE_def)
  next
    case False
    then have cap: "capacity ?t' = capacity t" using p(4) by simp
    have lt: "4 * size_ht t < 3 * capacity t" using False grows_iff [OF th] by simp
    have 1: "4 * size_ht ?t' \<le> 3 * capacity ?t' + 3" using lt p(5) cap by simp
    have 2: "4 dvd capacity t \<Longrightarrow> 4 * size_ht ?t' \<le> 3 * capacity ?t'"
    proof -
      assume "4 dvd capacity t"
      then obtain m where m: "capacity t = 4 * m" by (auto simp: dvd_def)
      then have "size_ht t < 3 * m" using lt by simp
      then show ?thesis using p(5) cap m by simp
    qed
    show ?thesis using 1 2 p(3) th cap c8 by (simp add: load_inv_def HASHTABLE_MIN_SIZE_def)
  qed
qed

lemma remove_load_inv:
  assumes inv: "table_inv t" and l: "load_inv t"
  shows "load_inv (snd (hashtable_remove t k))"
  using remove_size_cases(3,4,5) [OF inv, of k] l
  by (auto simp: load_inv_def)

lemma init_load_inv: "load_inv (hashtable_init c hf)"
  by (simp add: load_inv_def hashtable_init_def HASHTABLE_MIN_SIZE_def Let_def)

lemma run_load_inv:
  assumes vp: "valid_policy hf"
  shows "table_inv (foldl table_step (hashtable_init c hf) ops) \<and>
         hash_func (foldl table_step (hashtable_init c hf) ops) = hf \<and>
         load_inv (foldl table_step (hashtable_init c hf) ops) \<and>
         (c < 8 \<or> 4 dvd c \<longrightarrow> 4 dvd capacity (foldl table_step (hashtable_init c hf) ops))"
proof (induction ops rule: rev_induct)
  case Nil
  have "capacity (hashtable_init c hf) = (if c < 8 then 8 else c)"
    and "hash_func (hashtable_init c hf) = hf"
    by (simp_all add: hashtable_init_def HASHTABLE_MIN_SIZE_def Let_def)
  then show ?case using init_inv [OF vp, of c] init_load_inv [of c hf] by auto
next
  case (snoc op ops)
  let ?t = "foldl table_step (hashtable_init c hf) ops"
  have inv: "table_inv ?t" and l: "load_inv ?t" using snoc.IH by simp_all
  show ?case
  proof (cases op)
    case (Put ok k v)
    show ?thesis
      using put_size_cases(1,2,4) [OF inv, of ok k v] put_load_inv [OF inv l, of ok k v] snoc.IH Put
      by auto
  next
    case (Remove k)
    show ?thesis
      using remove_size_cases(1,2,4) [OF inv, of k] remove_load_inv [OF inv l, of k] snoc.IH Remove
      by auto
  qed
qed

lemma values_lookup_iff:
  assumes inv: "table_inv s"
  shows "(\<forall>e\<in>set (concat (buckets s)). snd e = d) \<longleftrightarrow> (\<forall>k v. bucket_lookup s k = Some v \<longrightarrow> v = d)"
proof
  assume all: "\<forall>e\<in>set (concat (buckets s)). snd e = d"
  show "\<forall>k v. bucket_lookup s k = Some v \<longrightarrow> v = d"
  proof (intro allI impI)
    fix k v assume "bucket_lookup s k = Some v"
    then obtain e where "e \<in> set (concat (buckets s))" "snd e = v"
      using lookup_Some_iff [OF inv, of k v] by blast
    then show "v = d" using all by blast
  qed
next
  assume a: "\<forall>k v. bucket_lookup s k = Some v \<longrightarrow> v = d"
  show "\<forall>e\<in>set (concat (buckets s)). snd e = d"
  proof
    fix e assume e: "e \<in> set (concat (buckets s))"
    have "key_equals (hash_func s) (fst e) (fst e)" using vp_refl [OF table_inv_policy [OF inv]] .
    then have "bucket_lookup s (fst e) = Some (snd e)"
      using lookup_Some_iff [OF inv, of "fst e" "snd e"] e by blast
    then show "snd e = d" using a by blast
  qed
qed

section \<open>Hash table: the claims\<close>

text \<open>
  C1. Claim: for a table created by \<^verbatim>\<open>hashtable_init\<close> with any requested capacity,
  after any sequence of put and remove, \<open>size / capacity \<le> 0.75\<close> holds
  immediately after every put.

  \<^verbatim>\<open>hashtable_put\<close> compares the load factor with the threshold before it inserts.
  A capacity that is not a multiple of 4 lets one more entry in: with requested
  capacity 9, the seventh put leaves 7 entries in 9 buckets.
\<close>

theorem put_load_factor_counterexample:
  "\<not> (of_nat (size_ht (foldl table_step (hashtable_init 9 INT_HASH_FUNC)
          [Put True 1 1, Put True 2 1, Put True 3 1, Put True 4 1, Put True 5 1,
           Put True 6 1, Put True 7 1])) /
      of_nat (capacity (foldl table_step (hashtable_init 9 INT_HASH_FUNC)
          [Put True 1 1, Put True 2 1, Put True 3 1, Put True 4 1, Put True 5 1,
           Put True 6 1, Put True 7 1]))
      \<le> (3 / 4 :: rat))"
  by (simp add: table_eval)

text \<open>
  C1, amended. For a table created by \<^verbatim>\<open>hashtable_init\<close> under a valid policy, after
  any sequence of put and remove (whether or not the entry allocations succeed), every
  put leaves \<open>size / capacity \<le> 0.75\<close> when the capacity is a multiple of 4, which
  it always is when the requested capacity is below 8 or a multiple of 4; for the
  other capacities it leaves \<open>size / capacity < 0.75 + 1 / capacity\<close>.
\<close>

theorem put_load_factor:
  assumes vp: "valid_policy hf"
    and t: "t = foldl table_step (hashtable_init c hf) ops"
    and t': "t' = snd (hashtable_put malloc_ok t key val)"
  shows "(4 dvd capacity t' \<longrightarrow> of_nat (size_ht t') / of_nat (capacity t') \<le> (3 / 4 :: rat)) \<and>
         (c < 8 \<or> 4 dvd c \<longrightarrow> 4 dvd capacity t') \<and>
         (of_nat (size_ht t') / of_nat (capacity t') :: rat) < 3 / 4 + 1 / of_nat (capacity t')"
proof -
  have "t' = foldl table_step (hashtable_init c hf) (ops @ [Put malloc_ok key val])"
    by (simp add: t t')
  then have l: "load_inv t'" and d: "c < 8 \<or> 4 dvd c \<longrightarrow> 4 dvd capacity t'"
    using run_load_inv [OF vp, of c "ops @ [Put malloc_ok key val]"] by simp_all
  have pos: "0 < capacity t'" using l by (simp add: load_inv_def HASHTABLE_MIN_SIZE_def)
  have b: "4 * size_ht t' < 3 * capacity t' + 4" using l by (simp add: load_inv_def)
  have "(of_nat (4 * size_ht t') :: rat) < of_nat (3 * capacity t' + 4)"
    using b by (simp only: of_nat_less_iff)
  then have 3: "(of_nat (size_ht t') / of_nat (capacity t') :: rat) < 3 / 4 + 1 / of_nat (capacity t')"
    using pos by (simp add: field_simps)
  have 1: "4 dvd capacity t' \<longrightarrow> of_nat (size_ht t') / of_nat (capacity t') \<le> (3 / 4 :: rat)"
  proof
    assume "4 dvd capacity t'"
    then have "4 * size_ht t' \<le> 3 * capacity t'" using l by (simp add: load_inv_def)
    then have "(of_nat (4 * size_ht t') :: rat) \<le> of_nat (3 * capacity t')"
      by (simp only: of_nat_le_iff)
    then show "of_nat (size_ht t') / of_nat (capacity t') \<le> (3 / 4 :: rat)"
      using pos by (simp add: field_simps)
  qed
  show ?thesis using 1 d 3 by blast
qed

theorem put_load_factor_witness:
  "valid_policy INT_HASH_FUNC \<and>
   of_nat (size_ht (snd (hashtable_put True (foldl table_step (hashtable_init 16 INT_HASH_FUNC)
       [Put True 1 1, Put True 2 1, Remove 1]) 3 1))) /
   of_nat (capacity (snd (hashtable_put True (foldl table_step (hashtable_init 16 INT_HASH_FUNC)
       [Put True 1 1, Put True 2 1, Remove 1]) 3 1))) \<le> (3 / 4 :: rat)"
proof -
  have "(4::nat) dvd 16" by simp
  then show ?thesis
    using put_load_factor [OF int_policy_valid refl refl, where c = 16
        and ops = "[Put True 1 1, Put True 2 1, Remove 1]" and malloc_ok = True and key = 3 and val = 1]
      int_policy_valid by blast
qed

text \<open>
  C2. Claim: a put on a key that is already present replaces the value in place,
  leaves \<open>size\<close> unchanged, copies no key and never grows the capacity.

  The load-factor check is the first statement of \<^verbatim>\<open>hashtable_put\<close>, before the chain
  is searched: with 6 entries in 8 buckets, putting one of the 6 keys again doubles the
  capacity.
\<close>

theorem put_existing_key_counterexample:
  "hashtable_has_key (foldl table_step (hashtable_init 8 INT_HASH_FUNC)
       [Put True 1 1, Put True 2 1, Put True 3 1, Put True 4 1, Put True 5 1, Put True 6 1]) 1 \<and>
   capacity (foldl table_step (hashtable_init 8 INT_HASH_FUNC)
       [Put True 1 1, Put True 2 1, Put True 3 1, Put True 4 1, Put True 5 1, Put True 6 1]) = 8 \<and>
   capacity (snd (hashtable_put True (foldl table_step (hashtable_init 8 INT_HASH_FUNC)
       [Put True 1 1, Put True 2 1, Put True 3 1, Put True 4 1, Put True 5 1, Put True 6 1]) 1 9)) = 16"
  by (simp add: table_eval)

text \<open>
  C2, amended. In a well-formed table, a put on a key that is already present returns
  true, makes the key map to the new value and leaves every other key's value, the
  \<open>size\<close> and the stored keys (no key is copied) as they were, with or without a
  working allocator; the capacity doubles when \<open>size \<ge> 0.75 * capacity\<close> held before
  the call (\<open>grows\<close>) and is unchanged otherwise.
\<close>

theorem put_existing_key:
  assumes inv: "table_inv t" and pres: "hashtable_has_key t key"
    and t': "t' = snd (hashtable_put malloc_ok t key val)"
  shows "fst (hashtable_put malloc_ok t key val) = True \<and>
         hashtable_get t' key = val \<and>
         (\<forall>k. \<not> key_equals (hash_func t) key k \<longrightarrow> hashtable_get t' k = hashtable_get t k) \<and>
         hashtable_size t' = hashtable_size t \<and>
         mset (map fst (concat (buckets t'))) = mset (map fst (concat (buckets t))) \<and>
         capacity t' = (if grows t then 2 * capacity t else capacity t)"
proof -
  note p = put_present [OF inv pres, of malloc_ok val]
  have "key_equals (hash_func t) key key" using vp_refl [OF table_inv_policy [OF inv]] .
  then have "hashtable_get t' key = val" using p(7) [of key] by (simp add: get_lookup t')
  moreover have "\<forall>k. \<not> key_equals (hash_func t) key k \<longrightarrow> hashtable_get t' k = hashtable_get t k"
    using p(7) by (simp add: get_lookup t')
  ultimately show ?thesis using p(1,5,6,8) by (simp add: t' hashtable_size_def)
qed

theorem put_existing_key_witness:
  "table_inv (foldl table_step (hashtable_init 16 INT_HASH_FUNC) [Put True 1 10, Put True 2 20]) \<and>
   hashtable_has_key (foldl table_step (hashtable_init 16 INT_HASH_FUNC) [Put True 1 10, Put True 2 20]) 1 \<and>
   hashtable_get (snd (hashtable_put False
     (foldl table_step (hashtable_init 16 INT_HASH_FUNC) [Put True 1 10, Put True 2 20]) 1 30)) 1 = 30 \<and>
   hashtable_size (snd (hashtable_put False
     (foldl table_step (hashtable_init 16 INT_HASH_FUNC) [Put True 1 10, Put True 2 20]) 1 30)) = 2 \<and>
   capacity (snd (hashtable_put False
     (foldl table_step (hashtable_init 16 INT_HASH_FUNC) [Put True 1 10, Put True 2 20]) 1 30)) = 16"
proof -
  let ?t = "foldl table_step (hashtable_init 16 INT_HASH_FUNC) [Put True 1 10, Put True 2 20]"
  have inv: "table_inv ?t"
    using run_refines [OF int_policy_valid, of "[Put True 1 10, Put True 2 20]" 16] by simp
  have pres: "hashtable_has_key ?t 1" by (simp add: table_eval)
  have g: "\<not> grows ?t" "hashtable_size ?t = 2" "capacity ?t = 16"
    by (simp_all add: grows_def table_eval)
  show ?thesis
    using put_existing_key [OF inv pres refl, of False 30] inv pres g by simp
qed

text \<open>
  C3. For a table created by \<^verbatim>\<open>hashtable_init\<close> under a valid policy and any sequence
  of put and remove whose entry allocations succeed, \<^verbatim>\<open>hashtable_get\<close> returns the
  value of the most recent put on an equal key that no later remove of an equal key
  followed (\<^verbatim>\<open>NULL\<close> when there is none), and \<^verbatim>\<open>hashtable_size\<close> is the number of
  distinct keys that were put and not removed afterwards.
\<close>

theorem get_latest_put_and_size:
  assumes "valid_policy hf" and "list_all op_allocated ops"
  shows "hashtable_get (foldl table_step (hashtable_init c hf) ops) key =
           latest_value (key_equals hf) ops key \<and>
         hashtable_size (foldl table_step (hashtable_init c hf) ops) =
           length (live_keys (key_equals hf) ops)"
  using run_refines [OF assms, of c]
  by (simp add: get_lookup latest_value_def hashtable_size_def)

theorem get_latest_put_and_size_witness:
  "valid_policy STRING_HASH_FUNC \<and>
   list_all op_allocated [Put True ''apple'' 1, Put True ''banana'' 2, Put True ''apple'' 3] \<and>
   hashtable_get (foldl table_step hashtable_init_string
     [Put True ''apple'' 1, Put True ''banana'' 2, Put True ''apple'' 3]) ''apple'' = 3 \<and>
   hashtable_size (foldl table_step hashtable_init_string
     [Put True ''apple'' 1, Put True ''banana'' 2, Put True ''apple'' 3]) = 2"
proof -
  have a: "list_all op_allocated [Put True ''apple'' 1, Put True ''banana'' 2, Put True ''apple'' 3]"
    by simp
  have "latest_value (key_equals STRING_HASH_FUNC)
          [Put True ''apple'' 1, Put True ''banana'' 2, Put True ''apple'' 3] ''apple'' = 3"
    and "length (live_keys (key_equals STRING_HASH_FUNC)
          [Put True ''apple'' 1, Put True ''banana'' 2, Put True ''apple'' 3]) = 2"
    by (simp_all add: latest_value_def latest_binding_def live_keys_def STRING_HASH_FUNC_def
        hash_string_equals_def)
  then show ?thesis
    using get_latest_put_and_size [OF string_policy_valid a, of HASHTABLE_DEFAULT_SIZE "''apple''"]
      string_policy_valid a
    by (simp add: hashtable_init_string_def)
qed

text \<open>
  C4. In a well-formed table, \<^verbatim>\<open>hashtable_remove\<close> of a key that has no entry returns
  false and leaves the table as it was; of a key that has an entry it returns true,
  lowers \<open>size\<close> by exactly one, and afterwards \<^verbatim>\<open>hashtable_contains\<close> is false for
  that key. (A key is present when its bucket chain holds an entry with an equal key,
  which is what the walk of \<^verbatim>\<open>hashtable_remove\<close> tests.)
\<close>

theorem remove_absent_and_present:
  assumes inv: "table_inv t"
  shows "(\<not> hashtable_has_key t key \<longrightarrow> hashtable_remove t key = (False, t)) \<and>
         (hashtable_has_key t key \<longrightarrow>
            fst (hashtable_remove t key) = True \<and>
            hashtable_size (snd (hashtable_remove t key)) + 1 = hashtable_size t \<and>
            \<not> hashtable_contains (snd (hashtable_remove t key)) key)"
proof (intro conjI impI)
  assume "\<not> hashtable_has_key t key"
  then show "hashtable_remove t key = (False, t)" by (rule remove_absent)
next
  assume pres: "hashtable_has_key t key"
  note r = remove_present [OF inv pres]
  show "fst (hashtable_remove t key) = True" using r(1) .
  show "hashtable_size (snd (hashtable_remove t key)) + 1 = hashtable_size t"
    using r(6) by (simp add: hashtable_size_def)
  have "key_equals (hash_func t) key key" using vp_refl [OF table_inv_policy [OF inv]] .
  then show "\<not> hashtable_contains (snd (hashtable_remove t key)) key"
    using r(7) [of key] by (simp add: hashtable_contains_def get_lookup)
qed

theorem remove_absent_and_present_witness:
  "table_inv (foldl table_step (hashtable_init 16 INT_HASH_FUNC) [Put True 1 10, Put True 2 20]) \<and>
   \<not> hashtable_has_key (foldl table_step (hashtable_init 16 INT_HASH_FUNC) [Put True 1 10, Put True 2 20]) 7 \<and>
   fst (hashtable_remove (foldl table_step (hashtable_init 16 INT_HASH_FUNC) [Put True 1 10, Put True 2 20]) 7) = False \<and>
   hashtable_has_key (foldl table_step (hashtable_init 16 INT_HASH_FUNC) [Put True 1 10, Put True 2 20]) 2 \<and>
   fst (hashtable_remove (foldl table_step (hashtable_init 16 INT_HASH_FUNC) [Put True 1 10, Put True 2 20]) 2) = True \<and>
   hashtable_size (snd (hashtable_remove
     (foldl table_step (hashtable_init 16 INT_HASH_FUNC) [Put True 1 10, Put True 2 20]) 2)) = 1 \<and>
   \<not> hashtable_contains (snd (hashtable_remove
     (foldl table_step (hashtable_init 16 INT_HASH_FUNC) [Put True 1 10, Put True 2 20]) 2)) 2"
proof -
  let ?t = "foldl table_step (hashtable_init 16 INT_HASH_FUNC) [Put True 1 10, Put True 2 20]"
  have inv: "table_inv ?t"
    using run_refines [OF int_policy_valid, of "[Put True 1 10, Put True 2 20]" 16] by simp
  have k: "\<not> hashtable_has_key ?t 7" "hashtable_has_key ?t 2" "hashtable_size ?t = 2"
    by (simp_all add: table_eval)
  show ?thesis
    using remove_absent_and_present [OF inv, of 7] remove_absent_and_present [OF inv, of 2] inv k
    by simp
qed

text \<open>
  C5. In a well-formed table, \<^verbatim>\<open>hashtable_resize\<close> to a positive capacity keeps the
  multiset of (key, value) entries and the \<open>size\<close>, and every entry ends in the bucket
  that the hash of its key gives for the new capacity.
\<close>

theorem resize_preserves_entries:
  assumes inv: "table_inv t" and c: "0 < new_capacity"
  shows "mset (concat (buckets (hashtable_resize t new_capacity))) = mset (concat (buckets t)) \<and>
         hashtable_size (hashtable_resize t new_capacity) = hashtable_size t \<and>
         capacity (hashtable_resize t new_capacity) = new_capacity \<and>
         length (buckets (hashtable_resize t new_capacity)) = new_capacity \<and>
         (\<forall>i < new_capacity. \<forall>e \<in> set (buckets (hashtable_resize t new_capacity) ! i).
            hash (hash_func t) (fst e) new_capacity = i)"
proof -
  note r = resize_props [OF inv c]
  have "length (buckets (hashtable_resize t new_capacity)) = new_capacity"
    using table_inv_length [OF r(1)] r(2) by simp
  moreover have "\<forall>i < new_capacity. \<forall>e \<in> set (buckets (hashtable_resize t new_capacity) ! i).
            hash (hash_func t) (fst e) new_capacity = i"
    using table_inv_bucket [OF r(1)] r(2,3) by simp
  ultimately show ?thesis using r(2,5,6) by (simp add: hashtable_size_def)
qed

theorem resize_preserves_entries_witness:
  "table_inv (foldl table_step (hashtable_init 8 INT_HASH_FUNC) [Put True 1 10, Put True 9 20, Put True 2 30]) \<and>
   buckets (hashtable_resize
     (foldl table_step (hashtable_init 8 INT_HASH_FUNC) [Put True 1 10, Put True 9 20, Put True 2 30]) 16) ! 9
     = [(9, 20)] \<and>
   hashtable_size (hashtable_resize
     (foldl table_step (hashtable_init 8 INT_HASH_FUNC) [Put True 1 10, Put True 9 20, Put True 2 30]) 16) = 3"
proof -
  let ?t = "foldl table_step (hashtable_init 8 INT_HASH_FUNC) [Put True 1 10, Put True 9 20, Put True 2 30]"
  have inv: "table_inv ?t"
    using run_refines [OF int_policy_valid, of "[Put True 1 10, Put True 9 20, Put True 2 30]" 8] by simp
  have e: "buckets (hashtable_resize ?t 16) ! 9 = [(9, 20)]" "hashtable_size ?t = 3"
    by (simp_all add: table_eval)
  have "(0::nat) < 16" by simp
  from resize_preserves_entries [OF inv this]
  have "hashtable_size (hashtable_resize ?t 16) = hashtable_size ?t" by blast
  then show ?thesis using inv e by simp
qed

lemma put_any:
  assumes inv: "table_inv t"
  shows "table_inv (snd (hashtable_put True t k v))"
    and "bucket_lookup (snd (hashtable_put True t k v)) k' =
           (if key_equals (hash_func t) k k' then Some v else bucket_lookup t k')"
    and "size_ht (snd (hashtable_put True t k v)) =
           (if hashtable_has_key t k then size_ht t else size_ht t + 1)"
    and "fst (hashtable_put True t k v) = True"
    and "hash_func (snd (hashtable_put True t k v)) = hash_func t"
  using put_present [OF inv, of k True v] put_absent [OF inv, of k True v]
  by (cases "hashtable_has_key t k"; simp)+

lemma hashset_inv_table: "hashset_inv s \<Longrightarrow> table_inv s"
  unfolding hashset_inv_def by blast

lemma hashset_inv_values:
  "hashset_inv s \<Longrightarrow> \<forall>k v. bucket_lookup s k = Some v \<longrightarrow> v = HASHSET_DUMMY_VALUE"
  using values_lookup_iff [of s HASHSET_DUMMY_VALUE] unfolding hashset_inv_def by blast

lemma hashset_invI:
  "table_inv s \<Longrightarrow> \<forall>k v. bucket_lookup s k = Some v \<longrightarrow> v = HASHSET_DUMMY_VALUE \<Longrightarrow>
   hashset_inv s"
  using values_lookup_iff [of s HASHSET_DUMMY_VALUE] unfolding hashset_inv_def by blast




lemma hashset_remove_inv: "hashset_inv s \<Longrightarrow> hashset_inv (snd (hashset_remove s k))"
proof -
  assume si: "hashset_inv s"
  have inv: "table_inv s" using hashset_inv_table [OF si] .
  have old: "\<forall>k v. bucket_lookup s k = Some v \<longrightarrow> v = HASHSET_DUMMY_VALUE"
    using hashset_inv_values [OF si] .
  show ?thesis
  proof (cases "hashtable_has_key s k")
    case True
    note r = remove_present [OF inv True]
    have "\<forall>k' v. bucket_lookup (snd (hashtable_remove s k)) k' = Some v \<longrightarrow> v = HASHSET_DUMMY_VALUE"
      using old by (simp add: r(7))
    then show ?thesis unfolding hashset_remove_def by (rule hashset_invI [OF r(2)])
  next
    case False
    then show ?thesis using si remove_absent [OF False] by (simp add: hashset_remove_def)
  qed
qed



text \<open>
  C10. In a well-formed table, after \<^verbatim>\<open>hashtable_put\<close> has stored \<^verbatim>\<open>NULL\<close> for a key
  (allocation succeeding), \<^verbatim>\<open>hashtable_get\<close> on the key returns \<^verbatim>\<open>NULL\<close>, which is
  also what it returns for every key without an entry, and \<^verbatim>\<open>hashtable_contains\<close> is
  false; yet the entry exists: it is counted in \<open>size\<close>, and \<^verbatim>\<open>hashtable_remove\<close> on
  the key returns true.
\<close>

theorem put_null_value:
  assumes inv: "table_inv t" and t': "t' = snd (hashtable_put True t key NULL)"
  shows "fst (hashtable_put True t key NULL) = True \<and>
         hashtable_get t' key = NULL \<and>
         (\<forall>k. \<not> hashtable_has_key t' k \<longrightarrow> hashtable_get t' k = NULL) \<and>
         \<not> hashtable_contains t' key \<and>
         hashtable_has_key t' key \<and>
         hashtable_size t' = (if hashtable_has_key t key then hashtable_size t else hashtable_size t + 1) \<and>
         hashtable_size t' = length (concat (buckets t')) \<and>
         fst (hashtable_remove t' key) = True"
proof -
  note p = put_any [OF inv, of key NULL]
  have e: "key_equals (hash_func t) key key" using vp_refl [OF table_inv_policy [OF inv]] .
  have l: "bucket_lookup t' key = Some NULL" using p(2) [of key] e by (simp add: t')
  have h: "hashtable_has_key t' key" using l by (simp add: hashtable_has_key_def)
  have i': "table_inv t'" using p(1) by (simp add: t')
  have 1: "fst (hashtable_put True t key NULL) = True" using p(4) .
  have 2: "hashtable_get t' key = NULL" using l by (simp add: get_lookup)
  have 3: "\<forall>k. \<not> hashtable_has_key t' k \<longrightarrow> hashtable_get t' k = NULL"
    by (simp add: hashtable_has_key_def get_lookup)
  have 4: "\<not> hashtable_contains t' key" using 2 by (simp add: hashtable_contains_def)
  have 5: "hashtable_size t' = (if hashtable_has_key t key then hashtable_size t else hashtable_size t + 1)"
    using p(3) by (simp add: t' hashtable_size_def)
  have 6: "hashtable_size t' = length (concat (buckets t'))"
    using table_inv_size [OF i'] by (simp add: hashtable_size_def)
  have 7: "fst (hashtable_remove t' key) = True" using remove_present(1) [OF i' h] .
  show ?thesis using 1 2 3 4 h 5 6 7 by blast
qed

theorem put_null_value_witness:
  "table_inv (foldl table_step (hashtable_init 16 INT_HASH_FUNC) [Put True 1 10]) \<and>
   hashtable_get (snd (hashtable_put True
     (foldl table_step (hashtable_init 16 INT_HASH_FUNC) [Put True 1 10]) 5 NULL)) 5 = NULL \<and>
   \<not> hashtable_contains (snd (hashtable_put True
     (foldl table_step (hashtable_init 16 INT_HASH_FUNC) [Put True 1 10]) 5 NULL)) 5 \<and>
   hashtable_size (snd (hashtable_put True
     (foldl table_step (hashtable_init 16 INT_HASH_FUNC) [Put True 1 10]) 5 NULL)) = 2 \<and>
   fst (hashtable_remove (snd (hashtable_put True
     (foldl table_step (hashtable_init 16 INT_HASH_FUNC) [Put True 1 10]) 5 NULL)) 5) = True"
proof -
  let ?t = "foldl table_step (hashtable_init 16 INT_HASH_FUNC) [Put True 1 10]"
  have inv: "table_inv ?t"
    using run_refines [OF int_policy_valid, of "[Put True 1 10]" 16] by simp
  have k: "\<not> hashtable_has_key ?t 5" "hashtable_size ?t = 1"
    by (simp_all add: table_eval)
  show ?thesis
    using put_null_value [OF inv refl] inv k by simp
qed

section \<open>Heap: the sift loops keep the heap order\<close>

lemma three_way_flip: "three_way cmp \<Longrightarrow> \<not> cmp a b < 0 \<Longrightarrow> cmp b a \<le> 0"
  unfolding three_way_def by (metis not_le)

lemma three_way_strict: "three_way cmp \<Longrightarrow> cmp a b < 0 \<Longrightarrow> cmp a b \<le> 0"
  by simp

lemma three_way_trans: "three_way cmp \<Longrightarrow> cmp a b \<le> 0 \<Longrightarrow> cmp b c \<le> 0 \<Longrightarrow> cmp a c \<le> 0"
  unfolding three_way_def by blast

lemma three_way_refl: "three_way cmp \<Longrightarrow> cmp a a = 0"
  unfolding three_way_def by (metis less_irrefl not_less_iff_gr_or_eq)

lemma three_way_strict_trans:
  "three_way cmp \<Longrightarrow> cmp a b < 0 \<Longrightarrow> cmp b c \<le> 0 \<Longrightarrow> cmp a c < 0"
  unfolding three_way_def by (metis less_le_not_le not_le)

lemma parent_cases: "0 < c \<Longrightarrow> HEAP_PARENT c = i \<Longrightarrow> c = HEAP_LEFT_CHILD i \<or> c = HEAP_RIGHT_CHILD i"
  unfolding HEAP_PARENT_def HEAP_LEFT_CHILD_def HEAP_RIGHT_CHILD_def by presburger

lemma parent_left [simp]: "HEAP_PARENT (HEAP_LEFT_CHILD i) = i"
  unfolding HEAP_PARENT_def HEAP_LEFT_CHILD_def by simp

lemma parent_right [simp]: "HEAP_PARENT (HEAP_RIGHT_CHILD i) = i"
  unfolding HEAP_PARENT_def HEAP_RIGHT_CHILD_def by simp

lemma parent_less: "0 < c \<Longrightarrow> HEAP_PARENT c < c"
  unfolding HEAP_PARENT_def by presburger

lemma swap_data:
  "i < length (data heap) \<Longrightarrow> j < length (data heap) \<Longrightarrow>
   data (binary_heap_swap heap i j) = (data heap)[i := data heap ! j, j := data heap ! i]"
  by (simp add: binary_heap_swap_def dynarray_set_def Let_def)

lemma swap_compare [simp]: "compare (binary_heap_swap heap i j) = compare heap"
  by (simp add: binary_heap_swap_def Let_def)

lemma swap_length [simp]: "length (data (binary_heap_swap heap i j)) = length (data heap)"
  by (simp add: binary_heap_swap_def dynarray_set_def Let_def)

lemma heapify_down_compare [simp]: "compare (binary_heap_heapify_down heap i) = compare heap"
  by (induction heap i rule: binary_heap_heapify_down.induct)
     (subst binary_heap_heapify_down.simps, simp add: Let_def)

lemma heapify_down_length [simp]: "length (data (binary_heap_heapify_down heap i)) = length (data heap)"
  by (induction heap i rule: binary_heap_heapify_down.induct)
     (subst binary_heap_heapify_down.simps, simp add: Let_def)

lemma heapify_up_compare [simp]: "compare (binary_heap_heapify_up heap i) = compare heap"
  by (induction heap i rule: binary_heap_heapify_up.induct)
     (subst binary_heap_heapify_up.simps, simp add: Let_def)

lemma heapify_up_length [simp]: "length (data (binary_heap_heapify_up heap i)) = length (data heap)"
  by (induction heap i rule: binary_heap_heapify_up.induct)
     (subst binary_heap_heapify_up.simps, simp add: Let_def)

lemma target_cases:
  "heapify_down_target heap i = i \<or>
   (heapify_down_target heap i = HEAP_LEFT_CHILD i \<and> HEAP_LEFT_CHILD i < length (data heap)) \<or>
   (heapify_down_target heap i = HEAP_RIGHT_CHILD i \<and> HEAP_RIGHT_CHILD i < length (data heap))"
  by (simp add: heapify_down_target_def dynarray_size_def Let_def)

lemma target_min:
  fixes heap :: "'a BinaryHeap" and i :: nat
  assumes tw: "three_way (compare heap)"
  defines "t \<equiv> heapify_down_target heap i"
  shows "compare heap (data heap ! t) (data heap ! i) \<le> 0"
    and "\<And>c. c < length (data heap) \<Longrightarrow> 0 < c \<Longrightarrow> HEAP_PARENT c = i \<Longrightarrow>
           compare heap (data heap ! t) (data heap ! c) \<le> 0"
proof -
  let ?cmp = "compare heap" and ?xs = "data heap" and ?n = "length (data heap)"
  let ?l = "HEAP_LEFT_CHILD i" and ?r = "HEAP_RIGHT_CHILD i"
  define t1 where "t1 = (if ?l < ?n \<and> ?cmp (?xs ! ?l) (?xs ! i) < 0 then ?l else i)"
  have t: "t = (if ?r < ?n \<and> ?cmp (?xs ! ?r) (?xs ! t1) < 0 then ?r else t1)"
    by (simp add: t_def t1_def heapify_down_target_def dynarray_size_def Let_def)
  have a: "?cmp (?xs ! t1) (?xs ! i) \<le> 0"
    using three_way_refl [OF tw] by (simp add: t1_def)
  have b: "?l < ?n \<Longrightarrow> ?cmp (?xs ! t1) (?xs ! ?l) \<le> 0"
    using three_way_refl [OF tw] three_way_flip [OF tw] by (simp add: t1_def)
  have c: "?cmp (?xs ! t) (?xs ! t1) \<le> 0"
    using three_way_refl [OF tw] by (simp add: t)
  have d: "?r < ?n \<Longrightarrow> ?cmp (?xs ! t) (?xs ! ?r) \<le> 0"
    using three_way_refl [OF tw] three_way_flip [OF tw] by (simp add: t)
  show i: "?cmp (?xs ! t) (?xs ! i) \<le> 0"
    using three_way_trans [OF tw c a] .
  fix c assume c_lt: "c < ?n" and "0 < c" and "HEAP_PARENT c = i"
  then have "c = ?l \<or> c = ?r" by (simp add: parent_cases)
  then show "?cmp (?xs ! t) (?xs ! c) \<le> 0"
    using b c d c_lt three_way_trans [OF tw] by blast
qed

lemma heapify_down_order:
  "three_way (compare heap) \<Longrightarrow> i < length (data heap) \<Longrightarrow> lo \<le> i \<Longrightarrow>
   down_pre lo (compare heap) (data heap) i \<Longrightarrow>
   heap_order_from lo (compare heap) (data (binary_heap_heapify_down heap i))"
proof (induction heap i rule: binary_heap_heapify_down.induct)
  case (1 heap index)
  let ?cmp = "compare heap" and ?xs = "data heap"
  let ?t = "heapify_down_target heap index"
  note tw = \<open>three_way ?cmp\<close>
  note pre = \<open>down_pre lo ?cmp ?xs index\<close>
  show ?case
  proof (cases "?t = index")
    case True
    have "heap_order_from lo ?cmp ?xs"
      unfolding heap_order_from_def
    proof (intro allI impI)
      fix c assume c: "c < length ?xs" "0 < c" "lo \<le> HEAP_PARENT c"
      show "?cmp (?xs ! HEAP_PARENT c) (?xs ! c) \<le> 0"
      proof (cases "HEAP_PARENT c = index")
        case True
        then show ?thesis using target_min(2) [OF tw, of c index] c \<open>?t = index\<close> by simp
      next
        case False
        then show ?thesis using pre c unfolding down_pre_def by blast
      qed
    qed
    then show ?thesis
      using True by (subst binary_heap_heapify_down.simps) (simp add: Let_def)
  next
    case False
    let ?h = "binary_heap_swap heap index ?t"
    have t_lt: "?t < length ?xs" and par_t: "HEAP_PARENT ?t = index" and t_pos: "0 < ?t"
      and t_gt: "index < ?t"
      using target_cases [of heap index] False
      by (auto simp: HEAP_LEFT_CHILD_def HEAP_RIGHT_CHILD_def HEAP_PARENT_def)
    have ys: "data ?h = ?xs[index := ?xs ! ?t, ?t := ?xs ! index]"
      using swap_data [OF \<open>index < length ?xs\<close> t_lt] .
    have ti: "?cmp (?xs ! ?t) (?xs ! index) \<le> 0"
      using target_min(1) [OF tw] .
    have tc: "\<And>c. c < length ?xs \<Longrightarrow> 0 < c \<Longrightarrow> HEAP_PARENT c = index \<Longrightarrow> ?cmp (?xs ! ?t) (?xs ! c) \<le> 0"
      using target_min(2) [OF tw] .
    have "down_pre lo ?cmp (data ?h) ?t"
      unfolding down_pre_def
    proof (intro conjI allI impI)
      fix c assume c: "c < length (data ?h)" "0 < c" "lo \<le> HEAP_PARENT c" "HEAP_PARENT c \<noteq> ?t"
      then have c_lt: "c < length ?xs" by simp
      show "?cmp (data ?h ! HEAP_PARENT c) (data ?h ! c) \<le> 0"
      proof (cases "HEAP_PARENT c = index")
        case True
        then have "c \<noteq> index" using parent_less [OF c(2)] by auto
        then show ?thesis
          using True ti tc [OF c_lt c(2) True] c_lt \<open>index < length ?xs\<close> t_gt
          by (cases "c = ?t") (simp_all add: ys)
      next
        case np: False
        have ct: "c \<noteq> ?t" using par_t np by auto
        show ?thesis
        proof (cases "c = index")
          case True
          have pp: "HEAP_PARENT index < index" using parent_less c(2) True by auto
          have "?cmp (?xs ! HEAP_PARENT index) (?xs ! ?t) \<le> 0"
            using pre c True t_lt t_pos par_t unfolding down_pre_def by blast
          then show ?thesis using True pp t_gt \<open>index < length ?xs\<close> t_lt by (simp add: ys)
        next
          case False
          have "?cmp (?xs ! HEAP_PARENT c) (?xs ! c) \<le> 0"
            using pre c_lt c np unfolding down_pre_def by blast
          then show ?thesis using False ct np c(4) by (simp add: ys)
        qed
      qed
    next
      fix c assume c: "0 < ?t" "lo \<le> HEAP_PARENT ?t" "c < length (data ?h)" "0 < c" "HEAP_PARENT c = ?t"
      then have c_lt: "c < length ?xs" by simp
      have cgt: "?t < c" using parent_less [OF c(4)] c(5) by simp
      have "lo \<le> HEAP_PARENT c" "HEAP_PARENT c \<noteq> index"
        using c(5) False \<open>lo \<le> index\<close> t_gt by simp_all
      then have "?cmp (?xs ! HEAP_PARENT c) (?xs ! c) \<le> 0"
        using pre c_lt c(4) unfolding down_pre_def by blast
      then have "?cmp (?xs ! ?t) (?xs ! c) \<le> 0"
        using c(5) by simp
      then show "?cmp (data ?h ! HEAP_PARENT ?t) (data ?h ! c) \<le> 0"
        using cgt t_gt \<open>index < length ?xs\<close> by (simp add: ys par_t)
    qed
    moreover have "lo \<le> ?t" using \<open>lo \<le> index\<close> t_gt by simp
    ultimately have "heap_order_from lo (compare ?h) (data (binary_heap_heapify_down ?h ?t))"
      using "1.IH" [OF refl False] tw t_lt by simp
    then show ?thesis
      using False by (subst binary_heap_heapify_down.simps) (simp add: Let_def)
  qed
qed

lemma heapify_up_order:
  "three_way (compare heap) \<Longrightarrow> i < length (data heap) \<Longrightarrow>
   up_pre (compare heap) (data heap) i \<Longrightarrow>
   heap_order_from 0 (compare heap) (data (binary_heap_heapify_up heap i))"
proof (induction heap i rule: binary_heap_heapify_up.induct)
  case (1 heap index)
  let ?cmp = "compare heap" and ?xs = "data heap"
  let ?p = "HEAP_PARENT index"
  note tw = \<open>three_way ?cmp\<close>
  note pre = \<open>up_pre ?cmp ?xs index\<close>
  show ?case
  proof (cases "index > 0 \<and> ?cmp (?xs ! index) (?xs ! ?p) < 0")
    case False
    have "heap_order_from 0 ?cmp ?xs"
      unfolding heap_order_from_def
    proof (intro allI impI)
      fix c assume c: "c < length ?xs" "0 < c"
      show "?cmp (?xs ! HEAP_PARENT c) (?xs ! c) \<le> 0"
      proof (cases "c = index")
        case True
        then show ?thesis using False c three_way_flip [OF tw] by auto
      next
        case False
        then show ?thesis using pre c unfolding up_pre_def by blast
      qed
    qed
    then show ?thesis
      using False by (subst binary_heap_heapify_up.simps) (auto simp: Let_def)
  next
    case True
    then have pos: "0 < index" and lt: "?cmp (?xs ! index) (?xs ! ?p) < 0" by simp_all
    let ?h = "binary_heap_swap heap index ?p"
    have p_lt: "?p < index" using parent_less [OF pos] .
    then have p_len: "?p < length ?xs" using \<open>index < length ?xs\<close> by simp
    have ys: "data ?h = ?xs[index := ?xs ! ?p, ?p := ?xs ! index]"
      using swap_data [OF \<open>index < length ?xs\<close> p_len] .
    have ip: "?cmp (?xs ! index) (?xs ! ?p) \<le> 0" using lt by simp
    have "up_pre ?cmp (data ?h) ?p"
      unfolding up_pre_def
    proof (intro conjI allI impI)
      fix c assume c: "c < length (data ?h)" "0 < c" "c \<noteq> ?p"
      then have c_lt: "c < length ?xs" by simp
      have pc: "HEAP_PARENT c < c" using parent_less [OF c(2)] .
      show "?cmp (data ?h ! HEAP_PARENT c) (data ?h ! c) \<le> 0"
      proof (cases "c = index")
        case True
        then show ?thesis using ip p_lt p_len \<open>index < length ?xs\<close> by (simp add: ys)
      next
        case ci: False
        have old: "?cmp (?xs ! HEAP_PARENT c) (?xs ! c) \<le> 0"
          using pre c_lt c(2) ci unfolding up_pre_def by blast
        show ?thesis
        proof (cases "HEAP_PARENT c = ?p")
          case True
          then have "?cmp (?xs ! index) (?xs ! c) \<le> 0"
            using three_way_trans [OF tw ip] old by simp
          then show ?thesis using True ci c(3) p_len by (simp add: ys)
        next
          case pp: False
          show ?thesis
          proof (cases "HEAP_PARENT c = index")
            case True
            have "?cmp (?xs ! ?p) (?xs ! c) \<le> 0"
              using pre pos c_lt c(2) True unfolding up_pre_def by blast
            then show ?thesis using True ci c(3) p_lt \<open>index < length ?xs\<close> by (simp add: ys)
          next
            case False
            then show ?thesis using old pp ci c(3) by (simp add: ys)
          qed
        qed
      qed
    next
      fix c assume c: "0 < ?p" "c < length (data ?h)" "0 < c" "HEAP_PARENT c = ?p"
      then have c_lt: "c < length ?xs" by simp
      have ppp: "HEAP_PARENT ?p < ?p" using parent_less [OF c(1)] .
      have g: "?cmp (?xs ! HEAP_PARENT ?p) (?xs ! ?p) \<le> 0"
        using pre p_len c(1) p_lt unfolding up_pre_def by (metis nat_neq_iff)
      have cp: "c \<noteq> ?p" using parent_less [OF c(3)] c(4) by simp
      show "?cmp (data ?h ! HEAP_PARENT ?p) (data ?h ! c) \<le> 0"
      proof (cases "c = index")
        case True
        then show ?thesis using g ppp p_lt \<open>index < length ?xs\<close> by (simp add: ys)
      next
        case False
        have "?cmp (?xs ! ?p) (?xs ! c) \<le> 0"
          using pre c_lt c(3) False c(4) unfolding up_pre_def by metis
        then have "?cmp (?xs ! HEAP_PARENT ?p) (?xs ! c) \<le> 0"
          using three_way_trans [OF tw g] by simp
        then show ?thesis using False cp ppp p_lt by (simp add: ys)
      qed
    qed
    then have "heap_order_from 0 (compare ?h) (data (binary_heap_heapify_up ?h ?p))"
      using "1.IH" [OF pos refl refl refl] lt tw p_len by simp
    then show ?thesis
      using True by (subst binary_heap_heapify_up.simps) (simp add: Let_def)
  qed
qed

lemma heapify_down_mset:
  "i < length (data heap) \<Longrightarrow> mset (data (binary_heap_heapify_down heap i)) = mset (data heap)"
proof (induction heap i rule: binary_heap_heapify_down.induct)
  case (1 heap index)
  let ?t = "heapify_down_target heap index"
  show ?case
  proof (cases "?t = index")
    case True
    then show ?thesis by (subst binary_heap_heapify_down.simps) (simp add: Let_def)
  next
    case False
    have t_lt: "?t < length (data heap)" using target_cases [of heap index] False by auto
    have "mset (data (binary_heap_swap heap index ?t)) = mset (data heap)"
      using swap_data [OF \<open>index < length (data heap)\<close> t_lt] mset_swap [OF t_lt \<open>index < length (data heap)\<close>]
      by simp
    then show ?thesis
      using "1.IH" [OF refl False] t_lt False
      by (subst binary_heap_heapify_down.simps) (simp add: Let_def)
  qed
qed


lemma is_valid_iff:
  "binary_heap_is_valid heap \<longleftrightarrow> heap_order_from 0 (compare heap) (data heap)"
proof
  assume v: "binary_heap_is_valid heap"
  show "heap_order_from 0 (compare heap) (data heap)"
    unfolding heap_order_from_def
  proof (intro allI impI)
    fix c assume c: "c < length (data heap)" "0 < c"
    let ?p = "HEAP_PARENT c"
    have "?p < length (data heap) div 2"
      using c unfolding HEAP_PARENT_def by presburger
    then have "?p \<in> set [0..<length (data heap) div 2]" by simp
    then have
      "\<not> (HEAP_LEFT_CHILD ?p < length (data heap) \<and> compare heap (data heap ! ?p) (data heap ! HEAP_LEFT_CHILD ?p) > 0) \<and>
       \<not> (HEAP_RIGHT_CHILD ?p < length (data heap) \<and> compare heap (data heap ! ?p) (data heap ! HEAP_RIGHT_CHILD ?p) > 0)"
      using v unfolding binary_heap_is_valid_def dynarray_size_def Let_def list_all_iff by blast
    moreover have "c = HEAP_LEFT_CHILD ?p \<or> c = HEAP_RIGHT_CHILD ?p"
      using parent_cases [OF c(2) refl] .
    ultimately show "compare heap (data heap ! ?p) (data heap ! c) \<le> 0"
      using c(1) by (metis not_le)
  qed
next
  assume h: "heap_order_from 0 (compare heap) (data heap)"
  have "\<And>c. c < length (data heap) \<Longrightarrow> 0 < c \<Longrightarrow>
          \<not> compare heap (data heap ! HEAP_PARENT c) (data heap ! c) > 0"
    using h unfolding heap_order_from_def by (simp add: not_less)
  from this [of "HEAP_LEFT_CHILD _"] this [of "HEAP_RIGHT_CHILD _"]
  show "binary_heap_is_valid heap"
    unfolding binary_heap_is_valid_def dynarray_size_def Let_def list_all_iff
    by (auto simp: HEAP_LEFT_CHILD_def HEAP_RIGHT_CHILD_def HEAP_PARENT_def)
qed


lemma push_compare [simp]: "compare (binary_heap_push heap x) = compare heap"
  by (simp add: binary_heap_push_def Let_def)


lemma push_length [simp]: "length (data (binary_heap_push heap x)) = Suc (length (data heap))"
  by (simp add: binary_heap_push_def Let_def dynarray_push_def dynarray_size_def)

lemma push_order:
  assumes tw: "three_way (compare heap)" and h: "heap_order_from 0 (compare heap) (data heap)"
  shows "heap_order_from 0 (compare heap) (data (binary_heap_push heap x))"
proof -
  let ?h1 = "heap\<lparr>data := data heap @ [x]\<rparr>"
  let ?n = "length (data heap)"
  have "up_pre (compare ?h1) (data ?h1) ?n"
    unfolding up_pre_def
  proof (intro conjI allI impI)
    fix c assume c: "c < length (data ?h1)" "0 < c" "c \<noteq> ?n"
    then have cl: "c < ?n" by simp
    then have "HEAP_PARENT c < ?n" using parent_less [OF c(2)] by simp
    then show "compare ?h1 (data ?h1 ! HEAP_PARENT c) (data ?h1 ! c) \<le> 0"
      using h cl c(2) unfolding heap_order_from_def by (simp add: nth_append)
  next
    fix c assume c: "c < length (data ?h1)" "0 < c" "HEAP_PARENT c = ?n"
    then have False using parent_less [OF c(2)] by simp
    then show "compare ?h1 (data ?h1 ! HEAP_PARENT ?n) (data ?h1 ! c) \<le> 0" ..
  qed
  then have "heap_order_from 0 (compare ?h1) (data (binary_heap_heapify_up ?h1 ?n))"
    using heapify_up_order [of ?h1 ?n] tw by simp
  then show ?thesis
    by (simp add: binary_heap_push_def Let_def dynarray_push_def dynarray_size_def)
qed

lemma set_root_down_order:
  assumes tw: "three_way (compare heap)" and h: "heap_order_from 0 (compare heap) xs"
    and ne: "ys \<noteq> []" and len: "length ys \<le> length xs"
    and same: "\<And>c. 0 < c \<Longrightarrow> c < length ys \<Longrightarrow> ys ! c = xs ! c"
  shows "heap_order_from 0 (compare heap) (data (binary_heap_heapify_down (heap\<lparr>data := ys\<rparr>) 0))"
proof -
  let ?h1 = "heap\<lparr>data := ys\<rparr>"
  have "down_pre 0 (compare ?h1) (data ?h1) 0"
    unfolding down_pre_def
  proof (intro conjI allI impI)
    fix c assume c: "c < length (data ?h1)" "0 < c" "HEAP_PARENT c \<noteq> 0"
    then have "0 < HEAP_PARENT c" "HEAP_PARENT c < length ys" "c < length ys"
      using parent_less [OF c(2)] by simp_all
    then show "compare ?h1 (data ?h1 ! HEAP_PARENT c) (data ?h1 ! c) \<le> 0"
      using h c(2) len same unfolding heap_order_from_def by simp
  qed simp
  then show ?thesis
    using heapify_down_order [of ?h1 0 0] tw ne by simp
qed

lemma pop_empty: "data heap = [] \<Longrightarrow> binary_heap_pop heap = (None, heap)"
  by (simp add: binary_heap_pop_def dynarray_size_def)

lemma pop_nonempty:
  assumes "data heap \<noteq> []"
  shows "fst (binary_heap_pop heap) = Some (data heap ! 0)"
    and "compare (snd (binary_heap_pop heap)) = compare heap"
    and "mset (data (snd (binary_heap_pop heap))) = mset (data heap) - {#data heap ! 0#}"
    and "length (data (snd (binary_heap_pop heap))) = length (data heap) - 1"
    and "three_way (compare heap) \<Longrightarrow> heap_order_from 0 (compare heap) (data heap) \<Longrightarrow>
         heap_order_from 0 (compare heap) (data (snd (binary_heap_pop heap)))"
proof -
  obtain x xs where xs: "data heap = x # xs" using assms by (cases "data heap") auto
  show "fst (binary_heap_pop heap) = Some (data heap ! 0)"
    by (simp add: binary_heap_pop_def dynarray_size_def dynarray_pop_def Let_def xs)
  show "compare (snd (binary_heap_pop heap)) = compare heap"
    by (simp add: binary_heap_pop_def dynarray_size_def dynarray_pop_def Let_def xs)
  show "length (data (snd (binary_heap_pop heap))) = length (data heap) - 1"
    by (simp add: binary_heap_pop_def dynarray_size_def dynarray_pop_def dynarray_set_def Let_def xs)
  show "mset (data (snd (binary_heap_pop heap))) = mset (data heap) - {#data heap ! 0#}"
  proof (cases "xs = []")
    case True
    then show ?thesis
      by (simp add: binary_heap_pop_def dynarray_size_def dynarray_pop_def Let_def xs)
  next
    case False
    then have "mset (butlast xs) + {#last xs#} = mset xs"
      by (metis append_butlast_last_id mset.simps(2) mset_append union_mset_add_mset_right add.right_neutral mset.simps(1))
    then show ?thesis using False
      by (simp add: binary_heap_pop_def dynarray_size_def dynarray_pop_def dynarray_set_def Let_def xs
          heapify_down_mset)
  qed
  assume tw: "three_way (compare heap)" and h: "heap_order_from 0 (compare heap) (data heap)"
  show "heap_order_from 0 (compare heap) (data (snd (binary_heap_pop heap)))"
  proof (cases "xs = []")
    case True
    then show ?thesis
      by (simp add: binary_heap_pop_def dynarray_size_def dynarray_pop_def Let_def xs heap_order_from_def)
  next
    case False
    let ?ys = "(butlast (x # xs))[0 := last xs]"
    have "heap_order_from 0 (compare heap) (data (binary_heap_heapify_down (heap\<lparr>data := ?ys\<rparr>) 0))"
    proof (rule set_root_down_order [OF tw h])
      show "?ys \<noteq> []" using False by simp
      show "length ?ys \<le> length (data heap)" by (simp add: xs)
      fix c assume "0 < c" "c < length ?ys"
      then show "?ys ! c = data heap ! c"
        using False by (simp add: xs nth_butlast)
    qed
    then show ?thesis using False
      by (simp add: binary_heap_pop_def dynarray_size_def dynarray_pop_def dynarray_set_def Let_def xs)
  qed
qed

lemma replace_order:
  assumes tw: "three_way (compare heap)" and h: "heap_order_from 0 (compare heap) (data heap)"
  shows "heap_order_from 0 (compare heap) (data (snd (binary_heap_replace heap x)))"
    and "compare (snd (binary_heap_replace heap x)) = compare heap"
proof -
  show "heap_order_from 0 (compare heap) (data (snd (binary_heap_replace heap x)))"
  proof (cases "data heap = []")
    case True
    then show ?thesis using push_order [OF tw h]
      by (simp add: binary_heap_replace_def dynarray_size_def)
  next
    case False
    let ?ys = "(data heap)[0 := x]"
    have "heap_order_from 0 (compare heap) (data (binary_heap_heapify_down (heap\<lparr>data := ?ys\<rparr>) 0))"
      by (rule set_root_down_order [OF tw h]) (use False in simp_all)
    then show ?thesis using False
      by (simp add: binary_heap_replace_def dynarray_size_def dynarray_set_def Let_def)
  qed
  show "compare (snd (binary_heap_replace heap x)) = compare heap"
    by (simp add: binary_heap_replace_def dynarray_size_def Let_def)
qed

lemma heap_step_wf:
  assumes "three_way (compare heap)" "heap_wf heap"
  shows "heap_wf (heap_step heap op) \<and> compare (heap_step heap op) = compare heap"
proof (cases op)
  case (Push x)
  then show ?thesis using push_order [OF assms [unfolded heap_wf_def]] by (simp add: heap_wf_def)
next
  case Pop
  show ?thesis
  proof (cases "data heap = []")
    case True
    then show ?thesis using assms Pop by (simp add: pop_empty)
  next
    case False
    then show ?thesis
      using pop_nonempty(2,5) [OF False] assms Pop by (simp add: heap_wf_def)
  qed
next
  case (Replace x)
  then show ?thesis using replace_order [OF assms [unfolded heap_wf_def]] by (simp add: heap_wf_def)
qed

lemma heap_run_wf:
  "three_way (compare heap) \<Longrightarrow> heap_wf heap \<Longrightarrow>
   heap_wf (foldl heap_step heap ops) \<and> compare (foldl heap_step heap ops) = compare heap"
proof (induction ops arbitrary: heap)
  case Nil
  then show ?case by simp
next
  case (Cons op ops)
  have s: "heap_wf (heap_step heap op)" "compare (heap_step heap op) = compare heap"
    using heap_step_wf [OF Cons.prems] by simp_all
  show ?case using Cons.IH [of "heap_step heap op"] s Cons.prems(1) by simp
qed

lemma init_wf: "heap_wf (binary_heap_init cmp n)"
  by (simp add: heap_wf_def binary_heap_init_def heap_order_from_def)








lemma three_way_pointer_compare: "three_way heap_pointer_compare"
  unfolding three_way_def heap_pointer_compare_def by auto


section \<open>Heap: the claims\<close>

text \<open>
  C7. Claim: draining a heap of \<^verbatim>\<open>int\<close> elements by repeated pop yields them in
  non-decreasing order under \<^verbatim>\<open>heap_int_compare_min\<close> and in non-increasing order
  under \<^verbatim>\<open>heap_int_compare_max\<close>.

  The comparators return the 32-bit difference of their arguments, which wraps around
  when the arguments are more than \<open>2 ^ 31\<close> apart, against their own description
  (negative if \<open>a < b\<close>, positive if \<open>a > b\<close>). Pushing 2000000000 and then
  -2000000000 into a min-heap leaves 2000000000 at the root, so the drain is
  decreasing; the array passes \<^verbatim>\<open>binary_heap_is_valid\<close> all the same. The max-heap
  fails in the mirrored way.
\<close>

theorem int_heap_drain_wraps:
  "map sint (drain_all (push_all (binary_heap_init heap_int_compare_min 16)
       [2000000000, - 2000000000])) = [2000000000, - 2000000000] \<and>
   binary_heap_is_valid (push_all (binary_heap_init heap_int_compare_min 16)
       [2000000000, - 2000000000]) \<and>
   map sint (drain_all (push_all (binary_heap_init heap_int_compare_max 16)
       [- 2000000000, 2000000000])) = [- 2000000000, 2000000000] \<and>
   binary_heap_is_valid (push_all (binary_heap_init heap_int_compare_max 16)
       [- 2000000000, 2000000000])"
  by code_simp

text \<open>
  C8. Starting from the empty heap, after every sequence of push, pop and replace under
  a comparator that is a three-way total preorder, \<^verbatim>\<open>binary_heap_is_valid\<close> returns
  true.
\<close>

theorem heap_valid_after_operations:
  "three_way cmp \<Longrightarrow>
   binary_heap_is_valid (foldl heap_step (binary_heap_init cmp initial_capacity) ops)"
proof -
  assume tw: "three_way cmp"
  let ?h0 = "binary_heap_init cmp initial_capacity"
  have "three_way (compare ?h0)" using tw by (simp add: binary_heap_init_def)
  from heap_run_wf [OF this init_wf, of ops]
  have "heap_wf (foldl heap_step ?h0 ops)" by simp
  then show ?thesis by (simp add: is_valid_iff heap_wf_def)
qed

theorem heap_valid_after_operations_witness:
  "three_way heap_pointer_compare \<and>
   binary_heap_is_valid (foldl heap_step (binary_heap_init heap_pointer_compare 16)
     [Push 50, Push 20, Push 80, Replace 10, Pop, Push 90, Pop, Push 30])"
  using heap_valid_after_operations [OF three_way_pointer_compare, of 16
    "[Push 50, Push 20, Push 80, Replace 10, Pop, Push 90, Pop, Push 30]"]
    three_way_pointer_compare by simp




end
